theory Spec2Isabelle
  imports Main "HOL-Library.AList"
begin

section \<open>The character trie of \<^verbatim>\<open>dfa_place_finder/dfa.py\<close>\<close>

text \<open>
  The class \<^verbatim>\<open>DFA\<close> keeps a trie of \<^verbatim>\<open>_Node\<close> objects that refer to each other
  by reference, mutates them in place, and compares and hashes them by identity
  (\<^verbatim>\<open>node == self._trap_node\<close>, the dictionary \<^verbatim>\<open>node_ids\<close> and the set \<^verbatim>\<open>seen\<close> of
  \<^verbatim>\<open>to_dot\<close>). The model therefore has an explicit object store: a node is known by
  its address, the store gives the contents of each address, and \<open>nodes\<close> lists the
  addresses of the objects that exist, in the order of their creation.

  A Python \<^verbatim>\<open>dict\<close> iterates in insertion order, so the dictionary \<^verbatim>\<open>children\<close> is an
  association list whose new keys are appended at the end; lookup is \<^const>\<open>map_of\<close>.
  A symbol is a \<^typ>\<open>char\<close> and a Python string a \<^typ>\<open>string\<close>; the code treats all
  characters alike except the 32 punctuation characters (in \<^verbatim>\<open>accepts\<close>) and the
  backslash and the double quote (in the labels of \<^verbatim>\<open>to_dot\<close>).
\<close>

type_synonym addr = nat

record node =
  children :: "(char \<times> addr) list"
  is_final :: bool

text \<open>\<^verbatim>\<open>_Node.__init__\<close>: no children, not final.\<close>

definition Node_init :: node where
  "Node_init = \<lparr>children = [], is_final = False\<rparr>"

record dfa =
  store :: "addr \<Rightarrow> node"
  nodes :: "addr list"
  root :: addr
  trap_node :: addr

text \<open>
  Creating an object takes an address from the allocator. Nothing is known about the
  allocator except that the address it returns is not the address of an existing object.
\<close>

type_synonym allocator = "addr list \<Rightarrow> addr"

definition fresh :: "allocator \<Rightarrow> bool" where
  "fresh al = (\<forall>used. al used \<notin> set used)"

text \<open>One allocator, for running the model: one more than the sum of the addresses in use.\<close>

definition bump :: allocator where
  "bump used = Suc (sum_list used)"

text \<open>\<^verbatim>\<open>DFA.__init__\<close>: the root is created first, the trap node second.\<close>

definition DFA_init :: "allocator \<Rightarrow> dfa" where
  "DFA_init al =
     (let r = al []; t = al [r]
      in \<lparr>store = (\<lambda>_. Node_init)(r := Node_init, t := Node_init),
          nodes = [r, t], root = r, trap_node = t\<rparr>)"

subsection \<open>\<^verbatim>\<open>insert\<close>\<close>

text \<open>
  \<^verbatim>\<open>node = node.children.setdefault(ch, self._Node())\<close>, once for each symbol. Python
  builds the argument \<^verbatim>\<open>self._Node()\<close> before the call in every round; when the key is
  present, \<^verbatim>\<open>setdefault\<close> returns the stored child and the new object, to which nothing
  refers, is gone at once: the store of existing objects is as before. When the key is
  absent the new object is stored under the key, at the end of the dictionary.
\<close>

fun insert_loop :: "allocator \<Rightarrow> dfa \<Rightarrow> addr \<Rightarrow> string \<Rightarrow> dfa \<times> addr" where
  "insert_loop al d n [] = (d, n)"
| "insert_loop al d n (ch # word) =
     (let new = al (nodes d) in
      case map_of (children (store d n)) ch of
        Some child \<Rightarrow> insert_loop al d child word
      | None \<Rightarrow>
          insert_loop al
            (d\<lparr>store := (store d)
                  (new := Node_init,
                   n := (store d n)\<lparr>children := children (store d n) @ [(ch, new)]\<rparr>),
               nodes := nodes d @ [new]\<rparr>)
            new word)"

text \<open>\<^verbatim>\<open>node.is_final = True\<close> at the node where the loop ended.\<close>

definition set_final :: "dfa \<times> addr \<Rightarrow> dfa" where
  "set_final p =
     (case p of (d, n) \<Rightarrow> d\<lparr>store := (store d)(n := (store d n)\<lparr>is_final := True\<rparr>)\<rparr>)"

definition insert_word :: "allocator \<Rightarrow> string \<Rightarrow> dfa \<Rightarrow> dfa" where
  "insert_word al word d = set_final (insert_loop al d (root d) word)"

text \<open>The automaton built by inserting the words of a list, in order, into a new one.\<close>

definition build :: "allocator \<Rightarrow> string list \<Rightarrow> dfa" where
  "build al ws = foldl (\<lambda>d w. insert_word al w d) (DFA_init al) ws"

subsection \<open>\<^verbatim>\<open>accepts\<close>\<close>

text \<open>\<^verbatim>\<open>string.punctuation\<close>, the 32 ASCII punctuation characters, in Python's order.\<close>

definition punctuation :: string where
  "punctuation =
     [CHR 0x21, CHR 0x22, CHR 0x23, CHR 0x24, CHR 0x25, CHR 0x26, CHR 0x27, CHR 0x28,
      CHR 0x29, CHR 0x2A, CHR 0x2B, CHR 0x2C, CHR 0x2D, CHR 0x2E, CHR 0x2F,
      CHR 0x3A, CHR 0x3B, CHR 0x3C, CHR 0x3D, CHR 0x3E, CHR 0x3F, CHR 0x40,
      CHR 0x5B, CHR 0x5C, CHR 0x5D, CHR 0x5E, CHR 0x5F, CHR 0x60,
      CHR 0x7B, CHR 0x7C, CHR 0x7D, CHR 0x7E]"

text \<open>
  The \<^verbatim>\<open>for\<close> loop of \<^verbatim>\<open>accepts\<close>, started at node \<open>n\<close>; its value is the node held by
  \<^verbatim>\<open>node\<close> when the loop is left. \<^verbatim>\<open>continue\<close> goes on with the same node, \<^verbatim>\<open>break\<close>
  leaves the loop with the trap node.
\<close>

fun accepts_loop :: "dfa \<Rightarrow> addr \<Rightarrow> string \<Rightarrow> addr" where
  "accepts_loop d n [] = n"
| "accepts_loop d n (ch # text) =
     (if ch \<in> set punctuation then accepts_loop d n text
      else case map_of (children (store d n)) ch of
             None \<Rightarrow> trap_node d
           | Some child \<Rightarrow> accepts_loop d child text)"

definition accepts :: "dfa \<Rightarrow> string \<Rightarrow> bool" where
  "accepts d text =
     (let n = accepts_loop d (root d) text
      in if n = trap_node d then False else is_final (store d n))"

subsection \<open>\<^verbatim>\<open>to_dot\<close>\<close>

text \<open>\<^verbatim>\<open>str\<close> of a natural number: its decimal digits.\<close>

definition digit_char :: "nat \<Rightarrow> char" where
  "digit_char k = ''0123456789'' ! k"

fun str_nat :: "nat \<Rightarrow> string" where
  "str_nat n =
     (if n < 10 then [digit_char n] else str_nat (n div 10) @ [digit_char (n mod 10)])"

declare str_nat.simps [simp del]

text \<open>The identifier \<^verbatim>\<open>f"Q{k}"\<close>.\<close>

definition qid :: "nat \<Rightarrow> string" where
  "qid k = ''Q'' @ str_nat k"

text \<open>
  \<^verbatim>\<open>node_ids\<close> is a dictionary from nodes (by identity) to identifiers, in insertion
  order. \<^verbatim>\<open>get_id\<close> gives a node without an identifier the next one and returns the
  identifier of the node.
\<close>

type_synonym id_table = "(addr \<times> string) list"

definition get_id :: "id_table \<Rightarrow> addr \<Rightarrow> id_table \<times> string" where
  "get_id node_ids n =
     (case map_of node_ids n of
        None \<Rightarrow> (node_ids @ [(n, qid (length node_ids))], qid (length node_ids))
      | Some s \<Rightarrow> (node_ids, s))"

text \<open>
  \<^verbatim>\<open>str.replace\<close> for a pattern of one character, and the label of an edge:
  backslashes are doubled first, then a backslash is put before each double quote.
\<close>

definition replace_char :: "char \<Rightarrow> string \<Rightarrow> string \<Rightarrow> string" where
  "replace_char old new s = concat (map (\<lambda>c. if c = old then new else [c]) s)"

definition escape_label :: "char \<Rightarrow> string" where
  "escape_label ch =
     replace_char (CHR 0x22) [CHR 0x5C, CHR 0x22]
       (replace_char (CHR 0x5C) [CHR 0x5C, CHR 0x5C] [ch])"

text \<open>
  The lines of the output. The fourth string of the source's list \<^verbatim>\<open>lines\<close> has no
  comma after it, so Python joins it with the fifth: the node and the edge defaults are
  one line.
\<close>

definition header_lines :: "string list" where
  \<open>header_lines =
     [''digraph DFA {'',
      ''  rankdir=LR;'',
      ''  graph [bgcolor="#131a2e"];'',
      ''  node [shape=circle, style=filled, fillcolor="#103c69", color="#2B65EC", fontcolor="white", fontname="Courier"];'' @
      ''  edge [fontcolor="#00f7ff", color="#00f7ff", fontname="Courier"];'']\<close>

definition start_decl :: string where
  \<open>start_decl = ''  __start__ [shape=none,label=""];''\<close>

definition start_edge :: "string \<Rightarrow> string" where
  "start_edge root_id = ''  __start__ -> '' @ root_id @ '';''"

definition accept_line :: "string \<Rightarrow> string" where
  \<open>accept_line nid =
     ''  '' @ nid @
     '' [shape=doublecircle, style=filled, fillcolor="#66CC66", color="#339933", fontcolor="white"];''\<close>

definition edge_line :: "string \<Rightarrow> string \<Rightarrow> string \<Rightarrow> string" where
  \<open>edge_line nid cid label = ''  '' @ nid @ '' -> '' @ cid @ '' [label="'' @ label @ ''"];''\<close>

text \<open>\<^verbatim>\<open>sep.join(xs)\<close>.\<close>

fun join :: "string \<Rightarrow> string list \<Rightarrow> string" where
  "join sep [] = []"
| "join sep [x] = x"
| "join sep (x # y # ys) = x @ sep @ join sep (y # ys)"

text \<open>
  The state of the traversal: \<^verbatim>\<open>node_ids\<close>, \<^verbatim>\<open>lines\<close>, \<^verbatim>\<open>queue\<close> and \<^verbatim>\<open>seen\<close>.
  \<open>edges_loop\<close> is the inner \<^verbatim>\<open>for ch, child in node.children.items()\<close>.
\<close>

type_synonym bfs_state = "id_table \<times> string list \<times> addr list \<times> addr set"

fun edges_loop :: "string \<Rightarrow> (char \<times> addr) list \<Rightarrow> bfs_state \<Rightarrow> bfs_state" where
  "edges_loop nid [] st = st"
| "edges_loop nid ((ch, child) # rest) (node_ids, lines, queue, seen) =
     (case get_id node_ids child of
        (node_ids', cid) \<Rightarrow>
          edges_loop nid rest
            (node_ids', lines @ [edge_line nid cid (escape_label ch)],
             if child \<notin> seen then queue @ [child] else queue,
             if child \<notin> seen then insert child seen else seen))"

text \<open>
  One round of \<^verbatim>\<open>while queue\<close>, for the node \<open>n\<close> taken from the front of the queue, and
  the loop itself. The loop need not end on every store (a store may hold an endless
  chain of nodes), so its value is optional: \<open>None\<close> is a loop that runs forever.
\<close>

definition bfs_round :: "dfa \<Rightarrow> addr \<Rightarrow> bfs_state \<Rightarrow> bfs_state" where
  "bfs_round d n st =
     (case st of (node_ids, lines, queue, seen) \<Rightarrow>
        (case get_id node_ids n of
           (node_ids', nid) \<Rightarrow>
             edges_loop nid (children (store d n))
               (node_ids',
                if is_final (store d n) then lines @ [accept_line nid] else lines,
                queue, seen)))"

partial_function (option) bfs_loop :: "dfa \<Rightarrow> bfs_state \<Rightarrow> bfs_state option" where
  "bfs_loop d st =
     (case st of (node_ids, lines, queue, seen) \<Rightarrow>
        (case queue of
           [] \<Rightarrow> Some st
         | n # queue' \<Rightarrow> bfs_loop d (bfs_round d n (node_ids, lines, queue', seen))))"

text \<open>
  The traversal of \<^verbatim>\<open>to_dot\<close> with the final \<^verbatim>\<open>node_ids\<close> and \<^verbatim>\<open>lines\<close>, and \<^verbatim>\<open>to_dot\<close>,
  which appends the closing brace and joins the lines.
\<close>

definition to_dot_run :: "dfa \<Rightarrow> (id_table \<times> string list) option" where
  "to_dot_run d =
     (case get_id [] (root d) of
        (node_ids, root_id) \<Rightarrow>
          (case bfs_loop d
                  (node_ids, header_lines @ [start_decl] @ [start_edge root_id],
                   [root d], {root d}) of
             None \<Rightarrow> None
           | Some (node_ids', lines, queue, seen) \<Rightarrow> Some (node_ids', lines @ [''}''])))"

definition to_dot :: "dfa \<Rightarrow> string option" where
  "to_dot d = map_option (\<lambda>(node_ids, lines). join [CHR 0x0A] lines) (to_dot_run d)"

declare bfs_loop.simps [code]

section \<open>The tree of nodes under the root\<close>

text \<open>
  The nodes that can be reached from a node, written as a tree that records the address
  and the flag of each node and, in the order of the dictionary, its children with their
  symbols. \<open>node_ok s t\<close>: the store \<open>s\<close> holds exactly the tree \<open>t\<close> at the address on top
  of \<open>t\<close>. \<open>tree_inv d t\<close>: the nodes under the root of \<open>d\<close> are the tree \<open>t\<close>, no node occurs
  twice in it, the trap node is not in it and is as it was created, and the existing
  objects are the nodes of the tree and the trap node.
\<close>

datatype atree = ANode addr bool "(char \<times> atree) list"

fun top :: "atree \<Rightarrow> addr" where
  "top (ANode a f kids) = a"

fun addrs :: "atree \<Rightarrow> addr list" where
  "addrs (ANode a f kids) = a # concat (map (\<lambda>(c, t). addrs t) kids)"

fun node_ok :: "(addr \<Rightarrow> node) \<Rightarrow> atree \<Rightarrow> bool" where
  "node_ok s (ANode a f kids) =
     (s a = \<lparr>children = map (\<lambda>(c, t). (c, top t)) kids, is_final = f\<rparr> \<and>
      distinct (map fst kids) \<and>
      (\<forall>(c, t) \<in> set kids. node_ok s t))"

definition kid_addrs :: "(char \<times> atree) list \<Rightarrow> addr list" where
  "kid_addrs kids = concat (map (\<lambda>(c, t). addrs t) kids)"

definition tree_inv :: "dfa \<Rightarrow> atree \<Rightarrow> bool" where
  "tree_inv d t =
     (top t = root d \<and> node_ok (store d) t \<and> distinct (addrs t) \<and>
      trap_node d \<notin> set (addrs t) \<and> store d (trap_node d) = Node_init \<and>
      set (nodes d) = insert (trap_node d) (set (addrs t)))"

text \<open>
  The same tree without the addresses, and the two operations on it: what \<^verbatim>\<open>insert\<close>
  does to the shape of the tree, and what \<^verbatim>\<open>accepts\<close> answers on it.
\<close>

datatype shape = Shape bool "(char \<times> shape) list"

fun erase :: "atree \<Rightarrow> shape" where
  "erase (ANode a f kids) = Shape f (map (\<lambda>(c, t). (c, erase t)) kids)"

fun shape_insert :: "string \<Rightarrow> shape \<Rightarrow> shape" where
  "shape_insert [] (Shape f kids) = Shape True kids"
| "shape_insert (c # w) (Shape f kids) =
     (case map_of kids c of
        Some k \<Rightarrow> Shape f (AList.update c (shape_insert w k) kids)
      | None \<Rightarrow> Shape f (kids @ [(c, shape_insert w (Shape False []))]))"

fun shape_accepts :: "shape \<Rightarrow> string \<Rightarrow> bool" where
  "shape_accepts (Shape f kids) [] = f"
| "shape_accepts (Shape f kids) (ch # text) =
     (if ch \<in> set punctuation then shape_accepts (Shape f kids) text
      else case map_of kids ch of
             None \<Rightarrow> False
           | Some k \<Rightarrow> shape_accepts k text)"

definition shape_of_words :: "string list \<Rightarrow> shape" where
  "shape_of_words ws = foldl (\<lambda>S w. shape_insert w S) (Shape False []) ws"

text \<open>
  What a run of \<^verbatim>\<open>insert\<close> from the top of a tree \<open>u\<close> does, from the automaton \<open>d\<close> to
  \<open>d'\<close>: the store holds a tree \<open>u'\<close> at the same address, with the shape that
  \<open>shape_insert\<close> gives, whose new nodes are new objects, and nothing outside \<open>u'\<close> has
  changed.
\<close>

definition grown :: "dfa \<Rightarrow> atree \<Rightarrow> string \<Rightarrow> dfa \<Rightarrow> atree \<Rightarrow> bool" where
  "grown d u w d' u' =
     (node_ok (store d') u' \<and> top u' = top u \<and> erase u' = shape_insert w (erase u) \<and>
      distinct (addrs u') \<and> set (addrs u) \<subseteq> set (addrs u') \<and>
      set (nodes d') = set (nodes d) \<union> set (addrs u') \<and>
      set (addrs u') \<inter> set (nodes d) \<subseteq> set (addrs u) \<and>
      (\<forall>x. x \<notin> set (addrs u') \<longrightarrow> store d' x = store d x) \<and>
      root d' = root d \<and> trap_node d' = trap_node d)"

section \<open>The export, read off the shape of the tree\<close>

text \<open>
  The traversal of \<^verbatim>\<open>to_dot\<close> written for a tree without addresses. The queue holds the
  shapes still to be expanded, each with the number of its identifier, and \<open>k\<close> is the
  next free number. A row is what one round of the loop prints: the number of the node,
  its flag, and for each edge the symbol and the number of the child.
\<close>

fun weight :: "shape \<Rightarrow> nat" where
  "weight (Shape f kids) = Suc (sum_list (map (\<lambda>(c, S). weight S) kids))"

lemma weight_zip:
  "length ns = length kids \<Longrightarrow>
   sum_list (map (\<lambda>(i, S). weight S) (zip ns (map snd kids))) =
   sum_list (map (\<lambda>(c, S). weight S) kids)"
  by (induction ns kids rule: list_induct2) auto

type_synonym row = "nat \<times> bool \<times> (char \<times> nat) list"

function shape_rows :: "nat \<Rightarrow> (nat \<times> shape) list \<Rightarrow> row list" where
  "shape_rows k [] = []"
| "shape_rows k ((i, Shape f kids) # q) =
     (i, f, zip (map fst kids) [k..<k + length kids]) #
     shape_rows (k + length kids) (q @ zip [k..<k + length kids] (map snd kids))"
  by pat_completeness auto
termination
  by (relation "measure (\<lambda>(k, q). sum_list (map (\<lambda>(i, S). weight S) q))")
    (simp_all add: weight_zip)

definition row_lines :: "row \<Rightarrow> string list" where
  "row_lines r =
     (case r of (i, f, es) \<Rightarrow>
        (if f then [accept_line (qid i)] else []) @
        map (\<lambda>(c, j). edge_line (qid i) (qid j) (escape_label c)) es)"

definition shape_dot_lines :: "shape \<Rightarrow> string list" where
  "shape_dot_lines S =
     header_lines @ [start_decl] @ [start_edge (qid 0)] @
     concat (map row_lines (shape_rows 1 [(0, S)])) @ [''}'']"

definition shape_dot :: "shape \<Rightarrow> string" where
  "shape_dot S = join [CHR 0x0A] (shape_dot_lines S)"

text \<open>
  The order of discovery in a breadth-first traversal of a tree: the root, then, for
  each node in the order in which the nodes leave the queue, its children in the order
  of its dictionary. \<open>discovered q\<close> lists the nodes that are first met as the target of
  an edge while the trees of the queue \<open>q\<close> are expanded.
\<close>

function discovered :: "atree list \<Rightarrow> addr list" where
  "discovered [] = []"
| "discovered (ANode a f kids # q) =
     map (\<lambda>(c, t). top t) kids @ discovered (q @ map snd kids)"
  by pat_completeness auto
termination
  by (relation "measure (\<lambda>q. length (concat (map addrs q)))")
    (simp_all add: kid_addrs_def map_concat comp_def split_def length_concat)

definition discovery_order :: "atree \<Rightarrow> addr list" where
  "discovery_order t = top t # discovered [t]"

text \<open>The table that gives the nodes of a list the identifiers \<^verbatim>\<open>Q0\<close>, \<^verbatim>\<open>Q1\<close>, ... in order.\<close>

definition id_table_of :: "addr list \<Rightarrow> id_table" where
  "id_table_of ds = zip ds (map qid [0..<length ds])"

text \<open>The addresses on top of the children of a node, and of the trees of a queue.\<close>

definition kid_tops :: "(char \<times> atree) list \<Rightarrow> addr list" where
  "kid_tops kids = map (\<lambda>(c, t). top t) kids"

definition qaddrs :: "(nat \<times> atree) list \<Rightarrow> addr list" where
  "qaddrs q = concat (map (\<lambda>(i, t). addrs t) q)"

definition qtops :: "(nat \<times> atree) list \<Rightarrow> addr list" where
  "qtops q = map (\<lambda>(i, t). top t) q"

text \<open>A second allocator, with other addresses than \<open>bump\<close>.\<close>

definition stride :: allocator where
  "stride used = 7 + 2 * sum_list used"

text \<open>
  The nodes that can be reached from the root of an automaton along stored transitions.
\<close>

inductive reachable :: "dfa \<Rightarrow> addr \<Rightarrow> bool" for d :: dfa where
  reach_root: "reachable d (root d)"
| reach_child: "reachable d a \<Longrightarrow> (c, b) \<in> set (children (store d a)) \<Longrightarrow> reachable d b"


text \<open>
  What the specification says of the identifiers in the output, to be compared with what
  \<^verbatim>\<open>to_dot\<close> prints. \<open>position D a\<close> is the place of the node \<open>a\<close> in the list \<open>D\<close>,
  counted from 0. \<open>node_lines d D a\<close> are the lines for the node \<open>a\<close> in which every node
  is written \<^verbatim>\<open>Q\<close> followed by its place in \<open>D\<close>: the accepting line when \<open>a\<close> is final,
  then one line for each of its edges, in the order of its dictionary. \<open>numbered_output\<close>
  is the whole list of lines, the nodes taken in the order of \<open>D\<close>. The texts of the
  lines are written out here as the source has them.
\<close>

fun position :: "addr list \<Rightarrow> addr \<Rightarrow> nat" where
  "position [] a = 0"
| "position (b # bs) a = (if a = b then 0 else Suc (position bs a))"

definition node_lines :: "dfa \<Rightarrow> addr list \<Rightarrow> addr \<Rightarrow> string list" where
  \<open>node_lines d D a =
     (if is_final (store d a)
      then [''  Q'' @ str_nat (position D a) @
            '' [shape=doublecircle, style=filled, fillcolor="#66CC66", color="#339933", fontcolor="white"];'']
      else []) @
     map (\<lambda>(c, b). ''  Q'' @ str_nat (position D a) @ '' -> Q'' @ str_nat (position D b) @
                   '' [label="'' @ escape_label c @ ''"];'')
       (children (store d a))\<close>

definition numbered_output :: "dfa \<Rightarrow> addr list \<Rightarrow> string list" where
  "numbered_output d D =
     header_lines @ [start_decl] @
     [''  __start__ -> Q'' @ str_nat (position D (root d)) @ '';''] @
     concat (map (node_lines d D) D) @ [''}'']"

section \<open>Properties of the store and of the tree\<close>

lemma update_at:
  "c \<notin> fst ` set xs \<Longrightarrow> AList.update c v (xs @ (c, k) # ys) = xs @ (c, v) # ys"
  by (induction xs) auto

lemma map_of_split:
  "map_of kids c = Some k \<Longrightarrow> \<exists>xs ys. kids = xs @ (c, k) # ys \<and> c \<notin> fst ` set xs"
proof (induction kids)
  case Nil
  then show ?case by simp
next
  case (Cons p kids)
  obtain c' k' where p: "p = (c', k')" by (cases p)
  show ?case
  proof (cases "c' = c")
    case True
    with Cons.prems p have "p # kids = [] @ (c, k) # kids \<and> c \<notin> fst ` set []" by simp
    then show ?thesis by blast
  next
    case False
    with Cons.prems p have "map_of kids c = Some k" by simp
    from Cons.IH [OF this] obtain xs ys where "kids = xs @ (c, k) # ys" "c \<notin> fst ` set xs"
      by blast
    with False p have "p # kids = (p # xs) @ (c, k) # ys \<and> c \<notin> fst ` set (p # xs)" by auto
    then show ?thesis by blast
  qed
qed

lemma kid_addrs_simps [simp]:
  "kid_addrs [] = []"
  "kid_addrs ((c, t) # kids) = addrs t @ kid_addrs kids"
  "kid_addrs (xs @ ys) = kid_addrs xs @ kid_addrs ys"
  by (simp_all add: kid_addrs_def)

lemma addrs_ANode [simp]: "addrs (ANode a f kids) = a # kid_addrs kids"
  by (simp add: kid_addrs_def)

declare addrs.simps [simp del]

lemma kid_addrs_mem: "(c, t) \<in> set kids \<Longrightarrow> set (addrs t) \<subseteq> set (kid_addrs kids)"
  by (induction kids) auto

lemma node_ok_frame:
  "node_ok s t \<Longrightarrow> (\<And>a. a \<in> set (addrs t) \<Longrightarrow> s' a = s a) \<Longrightarrow> node_ok s' t"
proof (induction t)
  case (ANode a f kids)
  have "node_ok s' k" if ck: "(c, k) \<in> set kids" for c k
  proof -
    from ck have "k \<in> Basic_BNFs.snds (c, k)" by auto
    moreover from ANode.prems(1) ck have "node_ok s k" by auto
    moreover have "\<And>x. x \<in> set (addrs k) \<Longrightarrow> s' x = s x"
      using ANode.prems(2) kid_addrs_mem [OF ck] by auto
    ultimately show "node_ok s' k" using ANode.IH ck by blast
  qed
  with ANode.prems show ?case by auto
qed

lemma top_in_addrs: "top t \<in> set (addrs t)"
  by (cases t) simp

lemma node_ok_kids:
  "(\<forall>(c, t) \<in> set kids. node_ok s t) \<Longrightarrow>
   (\<And>t x. t \<in> snd ` set kids \<Longrightarrow> x \<in> set (addrs t) \<Longrightarrow> s' x = s x) \<Longrightarrow>
   (\<forall>(c, t) \<in> set kids. node_ok s' t)"
  by (force intro: node_ok_frame)

lemma grown_Nil:
  assumes ok: "node_ok (store d) u" and dist: "distinct (addrs u)"
    and sub: "set (addrs u) \<subseteq> set (nodes d)"
  shows "\<exists>u'. grown d u [] (set_final (d, top u)) u'"
proof -
  obtain a f kids where u: "u = ANode a f kids" by (cases u)
  let ?d' = "set_final (d, a)"
  let ?u' = "ANode a True kids"
  have st: "store ?d' = (store d)(a := (store d a)\<lparr>is_final := True\<rparr>)"
    by (simp add: set_final_def)
  have other: "nodes ?d' = nodes d" "root ?d' = root d" "trap_node ?d' = trap_node d"
    by (simp_all add: set_final_def)
  have kids: "\<forall>(c, t) \<in> set kids. node_ok (store ?d') t"
  proof (rule node_ok_kids)
    show "\<forall>(c, t) \<in> set kids. node_ok (store d) t" using ok u by simp
    fix t x assume "t \<in> snd ` set kids" "x \<in> set (addrs t)"
    then have "x \<in> set (kid_addrs kids)" using kid_addrs_mem by fastforce
    with dist u have "x \<noteq> a" by auto
    then show "store ?d' x = store d x" by (simp add: st)
  qed
  from ok u have "store d a = \<lparr>children = map (\<lambda>(c, t). (c, top t)) kids, is_final = f\<rparr>"
    and dk: "distinct (map fst kids)" by simp_all
  then have "store ?d' a = \<lparr>children = map (\<lambda>(c, t). (c, top t)) kids, is_final = True\<rparr>"
    by (simp add: st)
  with kids dk have 1: "node_ok (store ?d') ?u'" by simp
  have 2: "top ?u' = top u" "erase ?u' = shape_insert [] (erase u)" "addrs ?u' = addrs u"
    using u by simp_all
  have 3: "set (nodes ?d') = set (nodes d) \<union> set (addrs ?u')"
    using sub u other by auto
  have 4: "\<forall>x. x \<notin> set (addrs ?u') \<longrightarrow> store ?d' x = store d x"
    by (simp add: st)
  have "grown d u [] ?d' ?u'"
    unfolding grown_def using 1 2 3 4 dist other by (simp only: simp_thms subset_refl Int_lower1)
  with u show ?thesis by auto
qed


lemma map_of_tops: "map_of (map (\<lambda>(c, t). (c, top t)) kids) c = map_option top (map_of kids c)"
  by (induction kids) auto

lemma map_of_erase: "map_of (map (\<lambda>(c, t). (c, erase t)) kids) c = map_option erase (map_of kids c)"
  by (induction kids) auto

lemma grown_Some:
  assumes ok: "node_ok (store d) (ANode a f kids)" and dist: "distinct (addrs (ANode a f kids))"
    and sub: "set (addrs (ANode a f kids)) \<subseteq> set (nodes d)"
    and k: "map_of kids c = Some k"
    and g: "grown d k w d' k'"
  shows "\<exists>u'. grown d (ANode a f kids) (c # w) d' u'"
proof -
  from map_of_split [OF k] obtain xs ys where
    kids: "kids = xs @ (c, k) # ys" and cx: "c \<notin> fst ` set xs" by blast
  let ?u' = "ANode a f (xs @ (c, k') # ys)"
  from g have ok': "node_ok (store d') k'" and top': "top k' = top k"
    and er: "erase k' = shape_insert w (erase k)" and dist': "distinct (addrs k')"
    and mono: "set (addrs k) \<subseteq> set (addrs k')"
    and nodes': "set (nodes d') = set (nodes d) \<union> set (addrs k')"
    and new: "set (addrs k') \<inter> set (nodes d) \<subseteq> set (addrs k)"
    and frame: "\<And>x. x \<notin> set (addrs k') \<Longrightarrow> store d' x = store d x"
    and rt: "root d' = root d" "trap_node d' = trap_node d"
    by (simp_all add: grown_def)
  have a_old: "a \<in> set (nodes d)" "a \<notin> set (addrs k)"
    "set (kid_addrs xs) \<subseteq> set (nodes d)" "set (kid_addrs ys) \<subseteq> set (nodes d)"
    "set (kid_addrs xs) \<inter> set (addrs k) = {}" "set (kid_addrs ys) \<inter> set (addrs k) = {}"
    using sub dist kids by auto
  have a_new: "a \<notin> set (addrs k')" "set (kid_addrs xs) \<inter> set (addrs k') = {}"
    "set (kid_addrs ys) \<inter> set (addrs k') = {}"
    using a_old new by blast+
  have sa: "store d' a = store d a" using a_new frame by simp
  have okx: "\<forall>(c, t) \<in> set xs. node_ok (store d') t"
  proof (rule node_ok_kids)
    show "\<forall>(c, t) \<in> set xs. node_ok (store d) t" using ok kids by simp
    fix t x assume "t \<in> snd ` set xs" "x \<in> set (addrs t)"
    then have "x \<in> set (kid_addrs xs)" using kid_addrs_mem by fastforce
    with a_new have "x \<notin> set (addrs k')" by blast
    then show "store d' x = store d x" by (rule frame)
  qed
  have oky: "\<forall>(c, t) \<in> set ys. node_ok (store d') t"
  proof (rule node_ok_kids)
    show "\<forall>(c, t) \<in> set ys. node_ok (store d) t" using ok kids by simp
    fix t x assume "t \<in> snd ` set ys" "x \<in> set (addrs t)"
    then have "x \<in> set (kid_addrs ys)" using kid_addrs_mem by fastforce
    with a_new have "x \<notin> set (addrs k')" by blast
    then show "store d' x = store d x" by (rule frame)
  qed
  have 1: "node_ok (store d') ?u'"
    using ok kids sa top' okx oky ok' by auto
  have "map_of (map (\<lambda>(c, t). (c, erase t)) kids) c = Some (erase k)"
    using k by (simp add: map_of_erase)
  moreover have "AList.update c (shape_insert w (erase k)) (map (\<lambda>(c, t). (c, erase t)) kids) =
      map (\<lambda>(c, t). (c, erase t)) xs @ (c, erase k') # map (\<lambda>(c, t). (c, erase t)) ys"
    using cx by (simp add: kids er update_at image_image split_def)
  ultimately have 2: "erase ?u' = shape_insert (c # w) (erase (ANode a f kids))"
    by simp
  have 3: "distinct (addrs ?u')"
    using dist kids dist' a_new by auto
  have 4: "set (addrs (ANode a f kids)) \<subseteq> set (addrs ?u')"
    using kids mono by auto
  have 5: "set (nodes d') = set (nodes d) \<union> set (addrs ?u')"
    using nodes' a_old by auto
  have 6: "set (addrs ?u') \<inter> set (nodes d) \<subseteq> set (addrs (ANode a f kids))"
    using new kids by auto
  have 7: "\<forall>x. x \<notin> set (addrs ?u') \<longrightarrow> store d' x = store d x"
    using frame by simp
  have "grown d (ANode a f kids) (c # w) d' ?u'"
    unfolding grown_def using 1 2 3 4 5 6 7 rt by (simp only: simp_thms top.simps)
  then show ?thesis by blast
qed


lemma grown_None:
  assumes ok: "node_ok (store d) (ANode a f kids)" and dist: "distinct (addrs (ANode a f kids))"
    and sub: "set (addrs (ANode a f kids)) \<subseteq> set (nodes d)"
    and none: "map_of kids c = None"
    and new: "new \<notin> set (nodes d)"
    and d1: "d1 = d\<lparr>store := (store d)
                  (new := Node_init,
                   a := (store d a)\<lparr>children := children (store d a) @ [(c, new)]\<rparr>),
               nodes := nodes d @ [new]\<rparr>"
    and g: "grown d1 (ANode new False []) w d' k'"
  shows "\<exists>u'. grown d (ANode a f kids) (c # w) d' u'"
proof -
  let ?u' = "ANode a f (kids @ [(c, k')])"
  from g have ok': "node_ok (store d') k'" and top': "top k' = new"
    and er: "erase k' = shape_insert w (Shape False [])" and dist': "distinct (addrs k')"
    and mono: "new \<in> set (addrs k')"
    and nodes': "set (nodes d') = set (nodes d1) \<union> set (addrs k')"
    and new': "set (addrs k') \<inter> set (nodes d1) \<subseteq> {new}"
    and frame: "\<And>x. x \<notin> set (addrs k') \<Longrightarrow> store d' x = store d1 x"
    and rt: "root d' = root d1" "trap_node d' = trap_node d1"
    by (simp_all add: grown_def)
  have n1: "set (nodes d1) = insert new (set (nodes d))" "root d1 = root d"
    "trap_node d1 = trap_node d"
    by (simp_all add: d1)
  have a_old: "a \<in> set (nodes d)" "set (kid_addrs kids) \<subseteq> set (nodes d)"
    "a \<notin> set (kid_addrs kids)" "distinct (kid_addrs kids)"
    using sub dist by auto
  have a_new: "a \<noteq> new" "a \<notin> set (addrs k')" "set (kid_addrs kids) \<inter> set (addrs k') = {}"
    using a_old new new' n1 by blast+
  from ok have sda: "store d a = \<lparr>children = map (\<lambda>(c, t). (c, top t)) kids, is_final = f\<rparr>"
    by simp
  have "store d' a = store d1 a" using a_new frame by simp
  also have "\<dots> = \<lparr>children = map (\<lambda>(c, t). (c, top t)) kids @ [(c, new)], is_final = f\<rparr>"
    by (simp add: d1 sda)
  finally have sa: "store d' a =
      \<lparr>children = map (\<lambda>(c, t). (c, top t)) (kids @ [(c, k')]), is_final = f\<rparr>"
    by (simp add: top')
  have okk: "\<forall>(c, t) \<in> set kids. node_ok (store d') t"
  proof (rule node_ok_kids)
    show "\<forall>(c, t) \<in> set kids. node_ok (store d) t" using ok by simp
    fix t x assume "t \<in> snd ` set kids" "x \<in> set (addrs t)"
    then have x: "x \<in> set (kid_addrs kids)" using kid_addrs_mem by fastforce
    with a_new have "x \<notin> set (addrs k')" by blast
    then have "store d' x = store d1 x" by (rule frame)
    moreover from x a_old new have "x \<noteq> a" "x \<noteq> new" by auto
    ultimately show "store d' x = store d x" by (simp add: d1)
  qed
  from none have ck: "c \<notin> fst ` set kids" by (simp add: map_of_eq_None_iff)
  from ok have "distinct (map fst kids)" by simp
  with ck have dk: "distinct (map fst (kids @ [(c, k')]))" by simp
  have 1: "node_ok (store d') ?u'"
    using sa dk okk ok' by (auto simp del: map_append)
  have "map_of (map (\<lambda>(c, t). (c, erase t)) kids) c = None"
    using none by (simp add: map_of_erase)
  then have 2: "erase ?u' = shape_insert (c # w) (erase (ANode a f kids))"
    by (simp add: er)
  have 3: "distinct (addrs ?u')"
    using a_old dist' a_new by auto
  have 4: "set (addrs (ANode a f kids)) \<subseteq> set (addrs ?u')"
    by auto
  have 5: "set (nodes d') = set (nodes d) \<union> set (addrs ?u')"
    using nodes' a_old n1 mono by auto
  have 6: "set (addrs ?u') \<inter> set (nodes d) \<subseteq> set (addrs (ANode a f kids))"
    using new' n1 new by auto
  have 7: "\<forall>x. x \<notin> set (addrs ?u') \<longrightarrow> store d' x = store d x"
  proof (intro allI impI)
    fix x assume "x \<notin> set (addrs ?u')"
    then have x: "x \<noteq> a" "x \<notin> set (addrs k')" by auto
    with mono have "x \<noteq> new" by auto
    with x frame [of x] show "store d' x = store d x" by (simp add: d1)
  qed
  have "grown d (ANode a f kids) (c # w) d' ?u'"
    unfolding grown_def using 1 2 3 4 5 6 7 rt n1 by (simp only: simp_thms top.simps)
  then show ?thesis by blast
qed

lemma insert_loop_grown:
  assumes al: "fresh al"
  shows "node_ok (store d) u \<Longrightarrow> distinct (addrs u) \<Longrightarrow> set (addrs u) \<subseteq> set (nodes d) \<Longrightarrow>
         \<exists>u'. grown d u w (set_final (insert_loop al d (top u) w)) u'"
proof (induction w arbitrary: d u)
  case Nil
  then show ?case using grown_Nil by simp
next
  case (Cons c w)
  obtain a f kids where u: "u = ANode a f kids" by (cases u)
  from Cons.prems u have sda:
    "store d a = \<lparr>children = map (\<lambda>(c, t). (c, top t)) kids, is_final = f\<rparr>" by simp
  show ?case
  proof (cases "map_of kids c")
    case None
    let ?new = "al (nodes d)"
    let ?d1 = "d\<lparr>store := (store d)
                  (?new := Node_init,
                   a := (store d a)\<lparr>children := children (store d a) @ [(c, ?new)]\<rparr>),
               nodes := nodes d @ [?new]\<rparr>"
    from al have new: "?new \<notin> set (nodes d)" by (simp add: fresh_def)
    from Cons.prems u have "a \<in> set (nodes d)" by simp
    with new have "a \<noteq> ?new" by auto
    then have "node_ok (store ?d1) (ANode ?new False [])"
      by (simp add: Node_init_def)
    moreover have "distinct (addrs (ANode ?new False []))"
      "set (addrs (ANode ?new False [])) \<subseteq> set (nodes ?d1)" by simp_all
    ultimately obtain k' where
      "grown ?d1 (ANode ?new False []) w
         (set_final (insert_loop al ?d1 (top (ANode ?new False [])) w)) k'"
      using Cons.IH by blast
    moreover have "insert_loop al d (top u) (c # w) = insert_loop al ?d1 ?new w"
      using None by (simp add: u sda map_of_tops Let_def)
    ultimately have "grown ?d1 (ANode ?new False []) w
         (set_final (insert_loop al d (top u) (c # w))) k'" by simp
    from grown_None [OF _ _ _ None new refl this] Cons.prems u
    show ?thesis by blast
  next
    case (Some k)
    then have mem: "(c, k) \<in> set kids" by (rule map_of_SomeD)
    with Cons.prems u have "node_ok (store d) k" by auto
    moreover from Cons.prems u kid_addrs_mem [OF mem] have "set (addrs k) \<subseteq> set (nodes d)"
      by auto
    moreover have "distinct (addrs k)"
    proof -
      from map_of_split [OF Some] obtain xs ys where "kids = xs @ (c, k) # ys" by blast
      with Cons.prems u show ?thesis by simp
    qed
    ultimately obtain k' where
      "grown d k w (set_final (insert_loop al d (top k) w)) k'"
      using Cons.IH by blast
    moreover have "insert_loop al d (top u) (c # w) = insert_loop al d (top k) w"
      using Some by (simp add: u sda map_of_tops Let_def)
    ultimately have "grown d k w (set_final (insert_loop al d (top u) (c # w))) k'" by simp
    from grown_Some [OF _ _ _ Some this] Cons.prems u
    show ?thesis by blast
  qed
qed

lemma tree_inv_init:
  assumes "fresh al"
  shows "tree_inv (DFA_init al) (ANode (al []) False [])"
proof -
  from assms have "al [al []] \<notin> set [al []]" unfolding fresh_def by blast
  then have "al [al []] \<noteq> al []" by simp
  then show ?thesis
    by (auto simp: tree_inv_def DFA_init_def Let_def Node_init_def)
qed

lemma tree_inv_insert:
  assumes al: "fresh al" and inv: "tree_inv d t"
  shows "\<exists>t'. tree_inv (insert_word al w d) t' \<and> erase t' = shape_insert w (erase t)"
proof -
  let ?d' = "insert_word al w d"
  from inv have t: "top t = root d" "node_ok (store d) t" "distinct (addrs t)"
    "trap_node d \<notin> set (addrs t)" "store d (trap_node d) = Node_init"
    "set (nodes d) = insert (trap_node d) (set (addrs t))"
    by (simp_all add: tree_inv_def)
  then have "set (addrs t) \<subseteq> set (nodes d)" by auto
  with insert_loop_grown [OF al t(2,3)] obtain t' where
    "grown d t w (set_final (insert_loop al d (top t) w)) t'" by blast
  then have g: "grown d t w ?d' t'" by (simp add: insert_word_def t)
  then have ok': "node_ok (store ?d') t'" and top': "top t' = top t"
    and er: "erase t' = shape_insert w (erase t)" and dist': "distinct (addrs t')"
    and mono: "set (addrs t) \<subseteq> set (addrs t')"
    and nodes': "set (nodes ?d') = set (nodes d) \<union> set (addrs t')"
    and new: "set (addrs t') \<inter> set (nodes d) \<subseteq> set (addrs t)"
    and frame: "\<And>x. x \<notin> set (addrs t') \<Longrightarrow> store ?d' x = store d x"
    and rt: "root ?d' = root d" "trap_node ?d' = trap_node d"
    by (simp_all add: grown_def)
  have trap: "trap_node d \<notin> set (addrs t')" using new t by auto
  then have "store ?d' (trap_node d) = Node_init" using frame t by simp
  moreover have "set (nodes ?d') = insert (trap_node d) (set (addrs t'))"
    using nodes' t mono by auto
  ultimately have "tree_inv ?d' t'"
    unfolding tree_inv_def using ok' top' dist' trap rt t(1) by simp
  with er show ?thesis by blast
qed

lemma build_snoc: "build al (ws @ [w]) = insert_word al w (build al ws)"
  by (simp add: build_def)

lemma tree_inv_build:
  assumes al: "fresh al"
  shows "\<exists>t. tree_inv (build al ws) t \<and> erase t = shape_of_words ws"
proof (induction ws rule: rev_induct)
  case Nil
  from tree_inv_init [OF al] show ?case
    by (auto simp: build_def shape_of_words_def)
next
  case (snoc w ws)
  then obtain t where "tree_inv (build al ws) t" "erase t = shape_of_words ws" by blast
  with tree_inv_insert [OF al this(1), of w] show ?case
    by (auto simp: build_snoc shape_of_words_def)
qed

lemma accepts_loop_shape:
  "node_ok (store d) u \<Longrightarrow> trap_node d \<notin> set (addrs u) \<Longrightarrow>
   (accepts_loop d (top u) inp \<noteq> trap_node d \<and> is_final (store d (accepts_loop d (top u) inp)))
     = shape_accepts (erase u) inp"
proof (induction inp arbitrary: u)
  case Nil
  obtain a f kids where u: "u = ANode a f kids" by (cases u)
  with Nil show ?case by auto
next
  case (Cons ch inp)
  obtain a f kids where u: "u = ANode a f kids" by (cases u)
  show ?case
  proof (cases "ch \<in> set punctuation")
    case True
    with Cons.IH [OF Cons.prems] show ?thesis by (simp add: u)
  next
    case False
    from Cons.prems u have sda:
      "store d a = \<lparr>children = map (\<lambda>(c, t). (c, top t)) kids, is_final = f\<rparr>" by simp
    show ?thesis
    proof (cases "map_of kids ch")
      case None
      with False show ?thesis by (simp add: u sda map_of_tops map_of_erase)
    next
      case (Some k)
      then have mem: "(ch, k) \<in> set kids" by (rule map_of_SomeD)
      with Cons.prems u have "node_ok (store d) k" by auto
      moreover from Cons.prems u kid_addrs_mem [OF mem] have "trap_node d \<notin> set (addrs k)"
        by auto
      ultimately have "(accepts_loop d (top k) inp \<noteq> trap_node d \<and>
          is_final (store d (accepts_loop d (top k) inp))) = shape_accepts (erase k) inp"
        by (rule Cons.IH)
      with False Some show ?thesis by (simp add: u sda map_of_tops map_of_erase)
    qed
  qed
qed

lemma accepts_shape: "tree_inv d t \<Longrightarrow> accepts d inp = shape_accepts (erase t) inp"
  using accepts_loop_shape [of d t inp] by (auto simp: tree_inv_def accepts_def Let_def)

lemma accepts_build:
  assumes "fresh al"
  shows "accepts (build al ws) inp = shape_accepts (shape_of_words ws) inp"
  using tree_inv_build [OF assms, of ws] accepts_shape by fastforce

lemma shape_accepts_filter:
  "shape_accepts S (filter (\<lambda>c. c \<notin> set punctuation) inp) = shape_accepts S inp"
proof (induction inp arbitrary: S)
  case Nil
  show ?case by simp
next
  case (Cons ch inp)
  obtain f kids where S: "S = Shape f kids" by (cases S)
  show ?case using Cons.IH by (simp add: S split: option.split)
qed

lemma map_of_snoc_None: "map_of kids c = None \<Longrightarrow> map_of (kids @ [(c, v)]) c = Some v"
  by (simp add: map_add_Some_iff)

lemma shape_accepts_insert_same:
  "set w \<inter> set punctuation = {} \<Longrightarrow> shape_accepts (shape_insert w S) w"
proof (induction w arbitrary: S)
  case Nil
  obtain f kids where S: "S = Shape f kids" by (cases S)
  show ?case by (simp add: S)
next
  case (Cons c w)
  obtain f kids where S: "S = Shape f kids" by (cases S)
  from Cons.prems have c: "c \<notin> set punctuation" and w: "set w \<inter> set punctuation = {}" by auto
  show ?case
  proof (cases "map_of kids c")
    case None
    with c Cons.IH [OF w] show ?thesis by (simp add: S map_of_snoc_None del: map_of_append)
  next
    case (Some k)
    with c Cons.IH [OF w] show ?thesis by (simp add: S update_conv')
  qed
qed

lemma shape_accepts_mono:
  "shape_accepts S inp \<Longrightarrow> shape_accepts (shape_insert w S) inp"
proof (induction inp arbitrary: S w)
  case Nil
  obtain f kids where S: "S = Shape f kids" by (cases S)
  with Nil show ?case by (cases w) (auto split: option.split)
next
  case (Cons ch inp)
  obtain f kids where S: "S = Shape f kids" by (cases S)
  show ?case
  proof (cases "ch \<in> set punctuation")
    case True
    with Cons.prems S have "shape_accepts S inp" by simp
    then have "shape_accepts (shape_insert w S) inp" by (rule Cons.IH)
    moreover obtain f' kids' where "shape_insert w S = Shape f' kids'"
      by (cases "shape_insert w S")
    ultimately show ?thesis using True by simp
  next
    case False
    with Cons.prems S obtain k where k: "map_of kids ch = Some k" "shape_accepts k inp"
      by (auto split: option.splits)
    show ?thesis
    proof (cases w)
      case Nil
      with False k show ?thesis by (simp add: S)
    next
      case (Cons c w')
      show ?thesis
      proof (cases "map_of kids c")
        case None
        with k have "map_of (kids @ [(c, shape_insert w' (Shape False []))]) ch = Some k"
          by (simp add: map_add_Some_iff)
        with None False k Cons show ?thesis by (simp add: S)
      next
        case (Some k2)
        show ?thesis
        proof (cases "c = ch")
          case True
          with k Some have "k2 = k" by simp
          with k Cons.IH have "shape_accepts (shape_insert w' k2) inp" by simp
          with Some False True Cons show ?thesis by (simp add: S update_conv')
        next
          case c: False
          with Some False k Cons show ?thesis by (simp add: S update_conv')
        qed
      qed
    qed
  qed
qed

lemma shape_insert_idem: "shape_insert w (shape_insert w S) = shape_insert w S"
proof (induction w arbitrary: S)
  case Nil
  obtain f kids where S: "S = Shape f kids" by (cases S)
  show ?case by (simp add: S)
next
  case (Cons c w)
  obtain f kids where S: "S = Shape f kids" by (cases S)
  show ?case
  proof (cases "map_of kids c")
    case None
    then have "c \<notin> fst ` set kids" by (simp add: map_of_eq_None_iff)
    then have "AList.update c v (kids @ [(c, v')]) = kids @ [(c, v)]" for v v'
      using update_at [of c kids v v' "[]"] by simp
    with None Cons.IH show ?thesis by (simp add: S map_of_snoc_None del: map_of_append)
  next
    case (Some k)
    with Cons.IH show ?thesis by (simp add: S update_conv')
  qed
qed

lemma insert_loop_present:
  "node_ok (store d) u \<Longrightarrow> shape_insert w (erase u) = erase u \<Longrightarrow>
   set_final (insert_loop al d (top u) w) = d"
proof (induction w arbitrary: u)
  case Nil
  obtain a f kids where u: "u = ANode a f kids" by (cases u)
  with Nil have "is_final (store d a)" by simp
  then have "(store d a)\<lparr>is_final := True\<rparr> = store d a" by simp
  then show ?case by (simp add: u set_final_def)
next
  case (Cons c w)
  obtain a f kids where u: "u = ANode a f kids" by (cases u)
  from Cons.prems u have sda:
    "store d a = \<lparr>children = map (\<lambda>(c, t). (c, top t)) kids, is_final = f\<rparr>" by simp
  show ?case
  proof (cases "map_of kids c")
    case None
    with Cons.prems(2) show ?thesis by (simp add: u map_of_erase)
  next
    case (Some k)
    then have mem: "(c, k) \<in> set kids" by (rule map_of_SomeD)
    with Cons.prems u have ok: "node_ok (store d) k" by auto
    let ?E = "map (\<lambda>(c, t). (c, erase t)) kids"
    from Some Cons.prems(2) have "AList.update c (shape_insert w (erase k)) ?E = ?E"
      by (simp add: u map_of_erase)
    then have "map_of (AList.update c (shape_insert w (erase k)) ?E) c = map_of ?E c" by simp
    with Some have "shape_insert w (erase k) = erase k"
      by (simp add: update_conv' map_of_erase)
    with ok have "set_final (insert_loop al d (top k) w) = d" by (rule Cons.IH)
    with Some show ?thesis by (simp add: u sda map_of_tops Let_def)
  qed
qed

lemma insert_word_present:
  "tree_inv d t \<Longrightarrow> shape_insert w (erase t) = erase t \<Longrightarrow> insert_word al w d = d"
  using insert_loop_present [of d t w al] by (simp add: tree_inv_def insert_word_def)

lemma shape_of_words_snoc: "shape_of_words (ws @ [w]) = shape_insert w (shape_of_words ws)"
  by (simp add: shape_of_words_def)

lemma shape_accepts_member:
  "w \<in> set ws \<Longrightarrow> set w \<inter> set punctuation = {} \<Longrightarrow> shape_accepts (shape_of_words ws) w"
proof (induction ws rule: rev_induct)
  case Nil
  then show ?case by simp
next
  case (snoc v ws)
  show ?case
  proof (cases "v = w")
    case True
    with snoc.prems show ?thesis by (simp add: shape_of_words_snoc shape_accepts_insert_same)
  next
    case False
    with snoc have "shape_accepts (shape_of_words ws) w" by simp
    then show ?thesis by (simp add: shape_of_words_snoc shape_accepts_mono)
  qed
qed

lemma le_sum_list: "x \<in> set xs \<Longrightarrow> x \<le> sum_list (xs :: nat list)"
  by (induction xs) auto

lemma bump_fresh: "fresh bump"
  unfolding fresh_def bump_def using le_sum_list by fastforce

lemma accepts_loop_append:
  "accepts_loop d n (pre @ rest) = trap_node d \<or>
   accepts_loop d n (pre @ rest) = accepts_loop d (accepts_loop d n pre) rest"
  by (induction pre arbitrary: n) (auto split: option.split)

lemma accepts_loop_punctuation:
  "set inp \<subseteq> set punctuation \<Longrightarrow> accepts_loop d n inp = n"
  by (induction inp) auto

lemma insert_loop_reuse:
  "node_ok (store d) u \<Longrightarrow> shape_insert w (erase u) = erase u \<Longrightarrow>
   fst (insert_loop al d (top u) w) = d \<and> is_final (store d (snd (insert_loop al d (top u) w)))"
proof (induction w arbitrary: u)
  case Nil
  obtain a f kids where u: "u = ANode a f kids" by (cases u)
  with Nil show ?case by simp
next
  case (Cons c w)
  obtain a f kids where u: "u = ANode a f kids" by (cases u)
  from Cons.prems u have sda:
    "store d a = \<lparr>children = map (\<lambda>(c, t). (c, top t)) kids, is_final = f\<rparr>" by simp
  show ?case
  proof (cases "map_of kids c")
    case None
    with Cons.prems(2) show ?thesis by (simp add: u map_of_erase)
  next
    case (Some k)
    then have mem: "(c, k) \<in> set kids" by (rule map_of_SomeD)
    with Cons.prems u have ok: "node_ok (store d) k" by auto
    let ?E = "map (\<lambda>(c, t). (c, erase t)) kids"
    from Some Cons.prems(2) have "AList.update c (shape_insert w (erase k)) ?E = ?E"
      by (simp add: u map_of_erase)
    then have "map_of (AList.update c (shape_insert w (erase k)) ?E) c = map_of ?E c" by simp
    with Some have "shape_insert w (erase k) = erase k"
      by (simp add: update_conv' map_of_erase)
    with ok have "fst (insert_loop al d (top k) w) = d \<and>
        is_final (store d (snd (insert_loop al d (top k) w)))" by (rule Cons.IH)
    with Some show ?thesis by (simp add: u sda map_of_tops Let_def)
  qed
qed

lemma id_table_of_snoc: "id_table_of (ds @ [b]) = id_table_of ds @ [(b, qid (length ds))]"
  by (simp add: id_table_of_def)

lemma length_id_table_of [simp]: "length (id_table_of ds) = length ds"
  by (simp add: id_table_of_def)

lemma get_id_old:
  "distinct ds \<Longrightarrow> i < length ds \<Longrightarrow> get_id (id_table_of ds) (ds ! i) = (id_table_of ds, qid i)"
  by (simp add: get_id_def id_table_of_def map_of_zip_nth)

lemma get_id_new:
  "b \<notin> set ds \<Longrightarrow> get_id (id_table_of ds) b = (id_table_of (ds @ [b]), qid (length ds))"
proof -
  assume "b \<notin> set ds"
  then have "map_of (id_table_of ds) b = None"
    by (simp add: id_table_of_def map_of_zip_is_None)
  then show ?thesis by (simp add: get_id_def id_table_of_snoc)
qed

lemma kid_tops_simps [simp]:
  "kid_tops [] = []" "kid_tops ((c, t) # kids) = top t # kid_tops kids"
  "length (kid_tops kids) = length kids"
  by (simp_all add: kid_tops_def)

lemma kid_tops_subset: "set (kid_tops kids) \<subseteq> set (kid_addrs kids)"
  by (induction kids) (use top_in_addrs in auto)

lemma kid_tops_distinct: "distinct (kid_addrs kids) \<Longrightarrow> distinct (kid_tops kids)"
proof (induction kids)
  case Nil
  show ?case by simp
next
  case (Cons p kids)
  obtain c t where p: "p = (c, t)" by (cases p)
  from Cons.prems p have "set (addrs t) \<inter> set (kid_addrs kids) = {}" "distinct (kid_addrs kids)"
    by auto
  with top_in_addrs [of t] kid_tops_subset [of kids] Cons.IH show ?case
    by (auto simp: p)
qed

lemma edges_loop_tree:
  "distinct (kid_tops kids) \<Longrightarrow> set (kid_tops kids) \<inter> set ds = {} \<Longrightarrow>
   edges_loop nid (map (\<lambda>(c, t). (c, top t)) kids) (id_table_of ds, L, Q, set ds) =
     (id_table_of (ds @ kid_tops kids),
      L @ map (\<lambda>(c, j). edge_line nid (qid j) (escape_label c))
            (zip (map fst kids) [length ds..<length ds + length kids]),
      Q @ kid_tops kids, set (ds @ kid_tops kids))"
proof (induction kids arbitrary: ds L Q)
  case Nil
  show ?case by simp
next
  case (Cons p kids)
  obtain c t where p: "p = (c, t)" by (cases p)
  let ?b = "top t"
  from Cons.prems p have b: "?b \<notin> set ds" and d: "distinct (kid_tops kids)"
    and i: "set (kid_tops kids) \<inter> set (ds @ [?b]) = {}" by auto
  have step: "edges_loop nid (map (\<lambda>(c, t). (c, top t)) (p # kids)) (id_table_of ds, L, Q, set ds) =
        edges_loop nid (map (\<lambda>(c, t). (c, top t)) kids)
          (id_table_of (ds @ [?b]), L @ [edge_line nid (qid (length ds)) (escape_label c)],
           Q @ [?b], set (ds @ [?b]))"
    using b by (simp add: p get_id_new)
  have upt: "[length ds..<length ds + length (p # kids)] =
      length ds # [length (ds @ [?b])..<length (ds @ [?b]) + length kids]"
    by (simp del: upt_Suc add: upt_conv_Cons)
  have tops: "kid_tops (p # kids) = ?b # kid_tops kids" by (simp add: p)
  have fsts: "map fst (p # kids) = c # map fst kids" by (simp add: p)
  show ?case
    unfolding step Cons.IH [OF d i] upt tops fsts
    by (simp only: zip_Cons_Cons list.map prod.case append_assoc append_Cons append_Nil)
qed

lemma qaddrs_simps [simp]:
  "qaddrs [] = []" "qaddrs ((i, t) # q) = addrs t @ qaddrs q"
  "qaddrs (q @ q') = qaddrs q @ qaddrs q'"
  by (simp_all add: qaddrs_def)

lemma qaddrs_zip: "length ns = length kids \<Longrightarrow> qaddrs (zip ns (map snd kids)) = kid_addrs kids"
  by (induction ns kids rule: list_induct2) auto

lemma qtops_simps [simp]:
  "qtops [] = []" "qtops ((i, t) # q) = top t # qtops q"
  "qtops (q @ q') = qtops q @ qtops q'"
  by (simp_all add: qtops_def)

lemma qtops_zip: "length ns = length kids \<Longrightarrow> qtops (zip ns (map snd kids)) = kid_tops kids"
  by (induction ns kids rule: list_induct2) auto

lemma qtops_subset: "set (qtops q) \<subseteq> set (qaddrs q)"
  by (induction q) (use top_in_addrs in auto)

lemma map_snd_zip_kids:
  "length ns = length kids \<Longrightarrow> map snd (zip ns (map snd kids)) = map snd kids"
  by (induction ns kids rule: list_induct2) auto

lemma erase_zip_kids:
  "length ns = length kids \<Longrightarrow>
   map (\<lambda>(i, t). (i, erase t)) (zip ns (map snd kids)) =
   zip ns (map snd (map (\<lambda>(c, t). (c, erase t)) kids))"
  by (induction ns kids rule: list_induct2) auto

lemma map_fst_erase: "map fst (map (\<lambda>(c, t). (c, erase t)) kids) = map fst kids"
  by (induction kids) auto

lemma map_fst_erase': "map (fst \<circ> (\<lambda>(c, t). (c, erase t))) kids = map fst kids"
  by (induction kids) auto

lemma zip_upt_index:
  "(j, t) \<in> set (zip [n..<n + length kids] (map snd kids)) \<Longrightarrow>
   \<exists>m c. m < length kids \<and> j = n + m \<and> kids ! m = (c, t)"
proof -
  assume "(j, t) \<in> set (zip [n..<n + length kids] (map snd kids))"
  then obtain m where m: "m < length kids" "[n..<n + length kids] ! m = j"
    "map snd kids ! m = t"
    by (auto simp: in_set_zip)
  then have "j = n + m" "snd (kids ! m) = t" by simp_all
  with m(1) show ?thesis by (cases "kids ! m") auto
qed

lemma kid_tops_nth: "m < length kids \<Longrightarrow> kids ! m = (c, t) \<Longrightarrow> kid_tops kids ! m = top t"
  by (simp add: kid_tops_def)

lemma bfs_loop_tree:
  assumes "\<forall>(i, t) \<in> set q. node_ok (store d) t \<and> i < length ds \<and> ds ! i = top t"
    and "distinct ds" and "distinct (qaddrs q)"
    and "set ds \<inter> set (qaddrs q) \<subseteq> set (qtops q)"
  shows "bfs_loop d (id_table_of ds, L, qtops q, set ds) =
     Some (id_table_of (ds @ discovered (map snd q)),
           L @ concat (map row_lines (shape_rows (length ds) (map (\<lambda>(i, t). (i, erase t)) q))),
           [], set (ds @ discovered (map snd q)))"
  using assms
proof (induction "length (qaddrs q)" arbitrary: q ds L rule: less_induct)
  case less
  show ?case
  proof (cases q)
    case Nil
    then show ?thesis by (simp add: bfs_loop.simps)
  next
    case (Cons p q')
    obtain i u where p: "p = (i, u)" by (cases p)
    obtain a f kids where u: "u = ANode a f kids" by (cases u)
    note q = Cons [unfolded p u]
    let ?n = "length ds"
    let ?tops = "kid_tops kids"
    let ?ds' = "ds @ ?tops"
    let ?new = "zip [?n..<?n + length kids] (map snd kids)"
    let ?q'' = "q' @ ?new"
    let ?row = "(i, f, zip (map fst kids) [?n..<?n + length kids])"
    from less.prems(1) q have ok: "node_ok (store d) (ANode a f kids)" and i: "i < ?n" "ds ! i = a"
      and old: "\<forall>(j, t) \<in> set q'. node_ok (store d) t \<and> j < ?n \<and> ds ! j = top t"
      by auto
    from ok have sda: "store d a = \<lparr>children = map (\<lambda>(c, t). (c, top t)) kids, is_final = f\<rparr>"
      and okk: "\<forall>(c, t) \<in> set kids. node_ok (store d) t" by simp_all
    from less.prems(3) q have dist: "a \<notin> set (kid_addrs kids)" "a \<notin> set (qaddrs q')"
      "distinct (kid_addrs kids)" "distinct (qaddrs q')"
      "set (kid_addrs kids) \<inter> set (qaddrs q') = {}" by auto
    from less.prems(4) q have sub: "set ds \<inter> set (kid_addrs kids) \<subseteq> insert a (set (qtops q'))"
      "set ds \<inter> set (qaddrs q') \<subseteq> insert a (set (qtops q'))" by auto
    have tq: "set (qtops q') \<subseteq> set (qaddrs q')" by (rule qtops_subset)
    have tk: "set ?tops \<subseteq> set (kid_addrs kids)" by (rule kid_tops_subset)
    have dk: "set ds \<inter> set (kid_addrs kids) = {}" using sub(1) dist tq by blast
    have dt: "distinct ?tops" using dist(3) by (rule kid_tops_distinct)
    have it: "set ?tops \<inter> set ds = {}" using dk tk by blast
    have round: "bfs_round d a (id_table_of ds, L, qtops q', set ds) =
        (id_table_of ?ds', L @ row_lines ?row, qtops q' @ ?tops, set ?ds')"
      using get_id_old [OF less.prems(2) i(1)] i(2)
      by (simp add: bfs_round_def sda edges_loop_tree [OF dt it] row_lines_def)
    have len: "length [?n..<?n + length kids] = length kids" by simp
    have tops'': "qtops ?q'' = qtops q' @ ?tops" by (simp add: qtops_zip [OF len])
    have addrs'': "qaddrs ?q'' = qaddrs q' @ kid_addrs kids" by (simp add: qaddrs_zip [OF len])
    have 1: "\<forall>(j, t) \<in> set ?q''. node_ok (store d) t \<and> j < length ?ds' \<and> ?ds' ! j = top t"
    proof -
      have "node_ok (store d) t \<and> j < length ?ds' \<and> ?ds' ! j = top t"
        if "(j, t) \<in> set ?q''" for j t
      proof (cases "(j, t) \<in> set q'")
        case True
        with old show ?thesis by (auto simp: nth_append)
      next
        case False
        with that have "(j, t) \<in> set ?new" by simp
        from zip_upt_index [OF this] obtain m c where
          m: "m < length kids" "j = ?n + m" "kids ! m = (c, t)" by blast
        then have "(c, t) \<in> set kids" by (metis nth_mem)
        with okk have "node_ok (store d) t" by auto
        moreover from m have "?ds' ! j = top t" by (simp add: nth_append kid_tops_nth)
        ultimately show ?thesis using m by simp
      qed
      then show ?thesis by auto
    qed
    have 2: "distinct ?ds'" using less.prems(2) dt it by auto
    have 3: "distinct (qaddrs ?q'')" unfolding addrs'' using dist by auto
    have 4: "set ?ds' \<inter> set (qaddrs ?q'') \<subseteq> set (qtops ?q'')"
      unfolding addrs'' tops'' using sub dist tq tk dk by auto
    have "length (qaddrs ?q'') < length (qaddrs q)" unfolding addrs'' by (simp add: q)
    from less.hyps [OF this 1 2 3 4, of "L @ row_lines ?row"]
    have IH: "bfs_loop d (id_table_of ?ds', L @ row_lines ?row, qtops ?q'', set ?ds') =
        Some (id_table_of (?ds' @ discovered (map snd ?q'')),
              (L @ row_lines ?row) @
                concat (map row_lines (shape_rows (length ?ds') (map (\<lambda>(i, t). (i, erase t)) ?q''))),
              [], set (?ds' @ discovered (map snd ?q'')))" .
    have disc: "ds @ discovered (map snd q) = ?ds' @ discovered (map snd ?q'')"
      by (simp add: q map_snd_zip_kids [OF len] kid_tops_def)
    have rows: "shape_rows ?n (map (\<lambda>(i, t). (i, erase t)) q) =
        ?row # shape_rows (length ?ds') (map (\<lambda>(i, t). (i, erase t)) ?q'')"
      by (simp add: q erase_zip_kids [OF len] map_fst_erase')
    have "bfs_loop d (id_table_of ds, L, qtops q, set ds) =
          bfs_loop d (bfs_round d a (id_table_of ds, L, qtops q', set ds))"
      by (subst bfs_loop.simps) (simp add: q)
    also have "\<dots> = bfs_loop d (id_table_of ?ds', L @ row_lines ?row, qtops ?q'', set ?ds')"
      by (simp only: round tops'')
    also note IH
    finally show ?thesis by (simp only: disc rows list.map concat.simps append_assoc)
  qed
qed

lemma to_dot_run_tree:
  assumes "tree_inv d t"
  shows "to_dot_run d = Some (id_table_of (discovery_order t), shape_dot_lines (erase t))"
proof -
  from assms have t: "top t = root d" "node_ok (store d) t" "distinct (addrs t)"
    by (simp_all add: tree_inv_def)
  let ?ds = "[root d]"
  let ?q = "[(0::nat, t)]"
  let ?L = "header_lines @ [start_decl] @ [start_edge (qid 0)]"
  have g: "get_id [] (root d) = (id_table_of ?ds, qid 0)"
    by (simp add: get_id_def id_table_of_def)
  have 1: "\<forall>(i, u) \<in> set ?q. node_ok (store d) u \<and> i < length ?ds \<and> ?ds ! i = top u"
    using t by simp
  have 2: "distinct ?ds" by simp
  have 3: "distinct (qaddrs ?q)" using t by simp
  have 4: "set ?ds \<inter> set (qaddrs ?q) \<subseteq> set (qtops ?q)" using t by auto
  from bfs_loop_tree [OF 1 2 3 4, of ?L]
  have "bfs_loop d (id_table_of ?ds, ?L, [root d], {root d}) =
      Some (id_table_of (?ds @ discovered [t]),
            ?L @ concat (map row_lines (shape_rows 1 [(0, erase t)])), [], set (?ds @ discovered [t]))"
    by (simp add: t)
  then show ?thesis
    by (simp add: to_dot_run_def g discovery_order_def shape_dot_lines_def t)
qed

lemma to_dot_tree: "tree_inv d t \<Longrightarrow> to_dot d = Some (shape_dot (erase t))"
  by (simp add: to_dot_def to_dot_run_tree shape_dot_def)

lemma to_dot_build:
  assumes "fresh al"
  shows "to_dot (build al ws) = Some (shape_dot (shape_of_words ws))"
proof -
  from tree_inv_build [OF assms, of ws] obtain t where
    "tree_inv (build al ws) t" "erase t = shape_of_words ws" by blast
  then show ?thesis by (simp add: to_dot_tree)
qed

lemma stride_fresh: "fresh stride"
  unfolding fresh_def stride_def
proof
  fix used :: "addr list"
  have "x \<le> sum_list used" if "x \<in> set used" for x using that by (rule le_sum_list)
  then show "7 + 2 * sum_list used \<notin> set used" by fastforce
qed

lemma kid_addrs_elem:
  "a \<in> set (kid_addrs kids) \<Longrightarrow> \<exists>c k. (c, k) \<in> set kids \<and> a \<in> set (addrs k)"
  by (induction kids) fastforce+

lemma node_ok_children:
  "node_ok s t \<Longrightarrow> a \<in> set (addrs t) \<Longrightarrow> (c, b) \<in> set (children (s a)) \<Longrightarrow>
   b \<in> set (addrs t)"
proof (induction t)
  case (ANode a' f kids)
  show ?case
  proof (cases "a = a'")
    case True
    with ANode.prems obtain k where "(c, k) \<in> set kids" "b = top k" by auto
    with kid_addrs_mem [OF this(1)] top_in_addrs [of k] show ?thesis by auto
  next
    case False
    with ANode.prems have "a \<in> set (kid_addrs kids)" by simp
    from kid_addrs_elem [OF this] obtain c' k where k: "(c', k) \<in> set kids" "a \<in> set (addrs k)"
      by blast
    with ANode.prems have "node_ok s k" by auto
    moreover from k have "k \<in> Basic_BNFs.snds (c', k)" by simp
    ultimately have "b \<in> set (addrs k)" using ANode.IH k ANode.prems(3) by blast
    with kid_addrs_mem [OF k(1)] show ?thesis by auto
  qed
qed

lemma reachable_in_tree:
  assumes "tree_inv d t"
  shows "reachable d a \<Longrightarrow> a \<in> set (addrs t)"
proof (induction rule: reachable.induct)
  case reach_root
  from assms top_in_addrs [of t] show ?case by (simp add: tree_inv_def)
next
  case (reach_child a c b)
  with assms node_ok_children show ?case by (auto simp: tree_inv_def)
qed

lemma insert_loop_roots:
  "trap_node (fst (insert_loop al d n w)) = trap_node d \<and>
   root (fst (insert_loop al d n w)) = root d"
  by (induction w arbitrary: d n) (auto simp: Let_def split: option.split)

lemma insert_word_roots:
  "trap_node (insert_word al w d) = trap_node d \<and> root (insert_word al w d) = root d"
  using insert_loop_roots [of al d "root d" w]
  by (simp add: insert_word_def set_final_def split_def)

lemma build_roots:
  "trap_node (build al ws) = trap_node (DFA_init al) \<and> root (build al ws) = root (DFA_init al)"
  by (induction ws rule: rev_induct) (simp_all add: build_def insert_word_roots)

lemma discovered_covers:
  "distinct (concat (map addrs q)) \<Longrightarrow>
   distinct (map top q @ discovered q) \<and>
   set (map top q @ discovered q) = set (concat (map addrs q))"
proof (induction q rule: discovered.induct)
  case 1
  show ?case by simp
next
  case (2 a f kids q)
  let ?A = "concat (map addrs q)"
  let ?K = "kid_addrs kids"
  let ?R = "map top q @ map (\<lambda>(c, t). top t) kids @ discovered (q @ map snd kids)"
  have app: "concat (map addrs (q @ map snd kids)) = ?A @ ?K"
    by (simp add: kid_addrs_def comp_def split_def)
  have t: "map top (q @ map snd kids) @ discovered (q @ map snd kids) = ?R"
    by (simp add: comp_def split_def)
  from "2.prems" have pre: "a \<notin> set ?K" "a \<notin> set ?A" "distinct ?K" "distinct ?A"
    "set ?K \<inter> set ?A = {}"
    by simp_all
  then have "distinct (?A @ ?K)" by auto
  with "2.IH" have IH: "distinct ?R" "set ?R = set (?A @ ?K)"
    unfolding app t by simp_all
  from IH(2) pre have a: "a \<notin> set ?R" by simp
  have d: "distinct (map top (ANode a f kids # q) @ discovered (ANode a f kids # q))"
    using IH(1) a by simp
  have "set (map top (ANode a f kids # q) @ discovered (ANode a f kids # q)) = insert a (set ?R)"
    by simp
  also have "\<dots> = set (concat (map addrs (ANode a f kids # q)))"
    unfolding IH(2) by auto
  finally show ?case using d by blast
qed

lemma discovery_order_covers:
  "distinct (addrs t) \<Longrightarrow>
   distinct (discovery_order t) \<and> set (discovery_order t) = set (addrs t)"
  using discovered_covers [of "[t]"] by (simp add: discovery_order_def)

lemma set_id_table_of [simp]: "fst ` set (id_table_of ds) = set ds"
  by (simp add: id_table_of_def) (metis length_map length_upt map_fst_zip minus_nat.diff_0 set_map)

lemma get_id_props:
  assumes "get_id ids n = (ids', s)"
  shows "(\<exists>new. ids' = ids @ new) \<and> n \<in> fst ` set ids' \<and> (n \<in> fst ` set ids \<longrightarrow> ids' = ids)"
proof (cases "map_of ids n")
  case None
  then have "n \<notin> fst ` set ids" by (simp add: map_of_eq_None_iff)
  moreover from None assms have "ids' = ids @ [(n, qid (length ids))]"
    by (auto simp: get_id_def)
  ultimately show ?thesis by auto
next
  case (Some q)
  then have "(n, q) \<in> set ids" by (rule map_of_SomeD)
  then have "n \<in> fst ` set ids" by force
  moreover from Some assms have "ids' = ids" by (auto simp: get_id_def)
  ultimately show ?thesis by simp
qed

lemma edges_loop_ids:
  "edges_loop nid cs (ids, L, Q, seen) = (ids', L', Q', seen') \<Longrightarrow>
   (\<exists>new. ids' = ids @ new) \<and> snd ` set cs \<subseteq> fst ` set ids' \<and> set Q' \<subseteq> set Q \<union> snd ` set cs"
proof (induction cs arbitrary: ids L Q seen)
  case Nil
  then show ?case by simp
next
  case (Cons p cs)
  obtain ch child where p: "p = (ch, child)" by (cases p)
  obtain ids1 cid where g: "get_id ids child = (ids1, cid)" by (cases "get_id ids child")
  from get_id_props [OF g] obtain new1 where
    n1: "ids1 = ids @ new1" "child \<in> fst ` set ids1" by blast
  let ?Q1 = "if child \<notin> seen then Q @ [child] else Q"
  let ?seen1 = "if child \<notin> seen then insert child seen else seen"
  from Cons.prems have "edges_loop nid cs
      (ids1, L @ [edge_line nid cid (escape_label ch)], ?Q1, ?seen1) = (ids', L', Q', seen')"
    by (simp add: p g)
  from Cons.IH [OF this] obtain new where
    IH: "ids' = ids1 @ new" "snd ` set cs \<subseteq> fst ` set ids'" "set Q' \<subseteq> set ?Q1 \<union> snd ` set cs"
    by blast
  from IH(1) n1 have "ids' = ids @ (new1 @ new)" "child \<in> fst ` set ids'" by auto
  moreover from IH(3) have "set Q' \<subseteq> set Q \<union> snd ` set (p # cs)"
    by (auto simp: p split: if_splits)
  ultimately show ?case using IH(2) by (auto simp: p)
qed

lemma bfs_round_ids:
  assumes "n \<in> fst ` set ids" and "set Q \<subseteq> fst ` set ids"
    and "bfs_round d n (ids, L, Q, seen) = (ids', L', Q', seen')"
  shows "fst (get_id ids n) = ids \<and> take (length ids) ids' = ids \<and> set Q' \<subseteq> fst ` set ids'"
proof -
  obtain ids1 nid where g: "get_id ids n = (ids1, nid)" by (cases "get_id ids n")
  from get_id_props [OF g] assms(1) have same: "ids1 = ids" by blast
  from assms(3) have "edges_loop nid (children (store d n))
      (ids, if is_final (store d n) then L @ [accept_line nid] else L, Q, seen) =
      (ids', L', Q', seen')"
    by (simp add: bfs_round_def g same)
  from edges_loop_ids [OF this] obtain new where
    e: "ids' = ids @ new" "snd ` set (children (store d n)) \<subseteq> fst ` set ids'"
      "set Q' \<subseteq> set Q \<union> snd ` set (children (store d n))" by blast
  from e(1) assms(2) have "set Q \<subseteq> fst ` set ids'" by auto
  with e(2,3) have "set Q' \<subseteq> fst ` set ids'" by blast
  with e(1) show ?thesis by (simp add: g same)
qed






























lemma position_nth: "distinct D \<Longrightarrow> i < length D \<Longrightarrow> position D (D ! i) = i"
proof (induction D arbitrary: i)
  case Nil
  then show ?case by simp
next
  case (Cons b bs)
  show ?case
  proof (cases i)
    case 0
    then show ?thesis by simp
  next
    case (Suc j)
    with Cons.prems have "bs ! j \<in> set bs" "b \<notin> set bs" by auto
    then have "bs ! j \<noteq> b" by auto
    with Cons Suc show ?thesis by simp
  qed
qed

lemma row_lines_node:
  assumes ok: "node_ok (store d) (ANode a f kids)"
    and F: "distinct F" "i < length F" "F ! i = a"
    and kids: "k + length kids \<le> length F"
      "\<And>m. m < length kids \<Longrightarrow> F ! (k + m) = kid_tops kids ! m"
  shows "row_lines (i, f, zip (map fst kids) [k..<k + length kids]) = node_lines d F a"
proof -
  from ok have sda: "store d a = \<lparr>children = map (\<lambda>(c, t). (c, top t)) kids, is_final = f\<rparr>"
    by simp
  have pa: "position F a = i" using position_nth [OF F(1,2)] F(3) by simp
  let ?e = "\<lambda>(c, j). edge_line (qid i) (qid j) (escape_label c)"
  let ?g = "\<lambda>(c, b). ''  Q'' @ str_nat i @ '' -> Q'' @ str_nat (position F b) @
                   '' [label='' @ [CHR 0x22] @ escape_label c @ [CHR 0x22] @ ''];''"
  have "map ?e (zip (map fst kids) [k..<k + length kids]) =
        map ?g (map (\<lambda>(c, t). (c, top t)) kids)"
  proof (rule nth_equalityI)
    show "length (map ?e (zip (map fst kids) [k..<k + length kids])) =
          length (map ?g (map (\<lambda>(c, t). (c, top t)) kids))" by simp
  next
    fix m assume "m < length (map ?e (zip (map fst kids) [k..<k + length kids]))"
    then have m: "m < length kids" by simp
    obtain c t where km: "kids ! m = (c, t)" by (cases "kids ! m")
    from kids(2) [OF m] km m have "F ! (k + m) = top t" by (simp add: kid_tops_def)
    moreover from m kids(1) have "k + m < length F" by simp
    ultimately have "position F (top t) = k + m" using position_nth [OF F(1)] by metis
    with m km show "map ?e (zip (map fst kids) [k..<k + length kids]) ! m =
          map ?g (map (\<lambda>(c, t). (c, top t)) kids) ! m"
      by (simp add: edge_line_def qid_def)
  qed
  then show ?thesis
    by (simp add: row_lines_def node_lines_def sda pa accept_line_def qid_def)
qed

lemma rows_numbered:
  assumes "\<forall>(i, t) \<in> set q. node_ok (store d) t \<and> i < length ds \<and> ds ! i = top t"
    and "F = ds @ discovered (map snd q)" and "distinct F"
  shows "concat (map row_lines (shape_rows (length ds) (map (\<lambda>(i, t). (i, erase t)) q))) =
         concat (map (node_lines d F) (qtops q @ discovered (map snd q)))"
  using assms
proof (induction "length (qaddrs q)" arbitrary: q ds rule: less_induct)
  case less
  show ?case
  proof (cases q)
    case Nil
    then show ?thesis by simp
  next
    case (Cons p q')
    obtain i u where p: "p = (i, u)" by (cases p)
    obtain a f kids where u: "u = ANode a f kids" by (cases u)
    note q = Cons [unfolded p u]
    let ?n = "length ds"
    let ?tops = "kid_tops kids"
    let ?ds' = "ds @ ?tops"
    let ?new = "zip [?n..<?n + length kids] (map snd kids)"
    let ?q'' = "q' @ ?new"
    let ?row = "(i, f, zip (map fst kids) [?n..<?n + length kids])"
    have len: "length [?n..<?n + length kids] = length kids" by simp
    from less.prems(1) q have ok: "node_ok (store d) (ANode a f kids)" and i: "i < ?n" "ds ! i = a"
      and old: "\<forall>(j, t) \<in> set q'. node_ok (store d) t \<and> j < ?n \<and> ds ! j = top t"
      by auto
    from ok have okk: "\<forall>(c, t) \<in> set kids. node_ok (store d) t" by simp
    have disc: "ds @ discovered (map snd q) = ?ds' @ discovered (map snd ?q'')"
      by (simp add: q map_snd_zip_kids [OF len] kid_tops_def)
    with less.prems(2) have F: "F = ?ds' @ discovered (map snd ?q'')" by simp
    have 1: "\<forall>(j, t) \<in> set ?q''. node_ok (store d) t \<and> j < length ?ds' \<and> ?ds' ! j = top t"
    proof -
      have "node_ok (store d) t \<and> j < length ?ds' \<and> ?ds' ! j = top t"
        if "(j, t) \<in> set ?q''" for j t
      proof (cases "(j, t) \<in> set q'")
        case True
        with old show ?thesis by (auto simp: nth_append)
      next
        case False
        with that have "(j, t) \<in> set ?new" by simp
        from zip_upt_index [OF this] obtain m c where
          m: "m < length kids" "j = ?n + m" "kids ! m = (c, t)" by blast
        then have "(c, t) \<in> set kids" by (metis nth_mem)
        with okk have "node_ok (store d) t" by auto
        moreover from m have "?ds' ! j = top t" by (simp add: nth_append kid_tops_nth)
        ultimately show ?thesis using m by simp
      qed
      then show ?thesis by auto
    qed
    have "length (qaddrs ?q'') < length (qaddrs q)"
      by (simp add: qaddrs_zip [OF len] q)
    from less.hyps [OF this 1 F less.prems(3)]
    have IH: "concat (map row_lines (shape_rows (length ?ds') (map (\<lambda>(i, t). (i, erase t)) ?q''))) =
        concat (map (node_lines d F) (qtops ?q'' @ discovered (map snd ?q'')))" .
    have rows: "shape_rows ?n (map (\<lambda>(i, t). (i, erase t)) q) =
        ?row # shape_rows (length ?ds') (map (\<lambda>(i, t). (i, erase t)) ?q'')"
      by (simp add: q erase_zip_kids [OF len] map_fst_erase')
    have order: "qtops q @ discovered (map snd q) = a # qtops ?q'' @ discovered (map snd ?q'')"
      by (simp add: q qtops_zip [OF len] map_snd_zip_kids [OF len] kid_tops_def)
    have Fi: "i < length F" "F ! i = a" using i F by (simp_all add: nth_append)
    have Fk: "?n + length kids \<le> length F" using F by simp
    have Fm: "F ! (?n + m) = kid_tops kids ! m" if "m < length kids" for m
      using that F by (simp add: nth_append)
    from row_lines_node [OF ok less.prems(3) Fi Fk Fm]
    have row: "row_lines ?row = node_lines d F a" by simp
    show ?thesis unfolding rows order using IH row by simp
  qed
qed

lemma position_hd: "position (a # ds) a = 0"
  by simp

lemma shape_dot_lines_numbered:
  assumes "tree_inv d t"
  shows "shape_dot_lines (erase t) = numbered_output d (discovery_order t)"
proof -
  from assms have t: "top t = root d" "node_ok (store d) t" "distinct (addrs t)"
    by (simp_all add: tree_inv_def)
  let ?D = "discovery_order t"
  have D: "distinct ?D" using discovery_order_covers [OF t(3)] by simp
  have 1: "\<forall>(i, u) \<in> set [(0::nat, t)]. node_ok (store d) u \<and> i < length [root d] \<and> [root d] ! i = top u"
    using t by simp
  have 2: "?D = [root d] @ discovered (map snd [(0::nat, t)])"
    by (simp add: discovery_order_def t)
  from rows_numbered [OF 1 2 D]
  have "concat (map row_lines (shape_rows 1 [(0, erase t)])) = concat (map (node_lines d ?D) ?D)"
    by (simp add: discovery_order_def t)
  moreover have "position ?D (root d) = 0" by (simp add: discovery_order_def t)
  ultimately show ?thesis
    by (simp add: shape_dot_lines_def numbered_output_def start_edge_def qid_def)
qed

section \<open>The claims\<close>

text \<open>
  Claim C1, as the code has it: for every automaton built by insertions and every word
  \<open>w\<close> that contains no punctuation symbol, \<^verbatim>\<open>accepts(w)\<close> is true after \<^verbatim>\<open>insert(w)\<close>.
  (\<^verbatim>\<open>insert\<close> stores a punctuation symbol as an edge like any other symbol, and
  \<^verbatim>\<open>accepts\<close> skips it, so the claim does not hold for a word with punctuation.)
\<close>

theorem C1_insert_accepts:
  assumes "fresh al" and "set w \<inter> set punctuation = {}"
  shows "accepts (insert_word al w (build al ws)) w"
proof -
  have "insert_word al w (build al ws) = build al (ws @ [w])" by (simp add: build_snoc)
  then show ?thesis
    using assms by (simp add: accepts_build shape_of_words_snoc shape_accepts_insert_same)
qed

text \<open>C1 at \<^verbatim>\<open>insert("cat")\<close> after \<^verbatim>\<open>insert("car")\<close>.\<close>

theorem C1_insert_accepts_witness:
  "fresh bump \<and> set ''cat'' \<inter> set punctuation = {} \<and>
   accepts (insert_word bump ''cat'' (build bump [''car''])) ''cat''"
proof -
  have p: "set ''cat'' \<inter> set punctuation = {}" by (simp add: punctuation_def)
  from C1_insert_accepts [OF bump_fresh p] bump_fresh p show ?thesis by simp
qed

text \<open>
  C1 as stated fails for a word with a punctuation symbol: after \<^verbatim>\<open>insert("a,b")\<close> on a
  new automaton, \<^verbatim>\<open>accepts("a,b")\<close> is false.
\<close>

theorem C1_counterexample:
  "\<not> accepts (insert_word bump ''a,b'' (DFA_init bump)) ''a,b''"
  by (simp add: insert_word_def set_final_def DFA_init_def bump_def Node_init_def
      accepts_def punctuation_def)

text \<open>
  Claim C2: for every automaton built by insertions, with \<open>t\<close> the tree of its nodes,
  \<^verbatim>\<open>to_dot\<close> ends with the table \<^verbatim>\<open>node_ids\<close> that lists the nodes in the order of
  their discovery by the breadth-first traversal (children in the order of the
  dictionary) and gives them \<^verbatim>\<open>Q0\<close>, \<^verbatim>\<open>Q1\<close>, ... in this order; the root is first and
  has \<^verbatim>\<open>Q0\<close>, and every node of the tree is listed once. The output is written with
  these identifiers: its lines are \<open>numbered_output\<close> for the order of discovery, that
  is, in the start edge, in every accepting line and at both ends of every edge line a
  node is written \<^verbatim>\<open>Q\<close> followed by its place in the order of discovery, and \<^verbatim>\<open>to_dot\<close>
  returns these lines joined by newlines. The identifier is given when the edge to the
  node is visited and not when the node is taken from the queue: in every round whose
  node and queued nodes have identifiers, \<^verbatim>\<open>get_id\<close> of the node taken from the queue
  leaves the table as it is, the round only appends to the table, and every node in the
  queue after the round has an identifier.
\<close>

theorem C2_ids_in_discovery_order:
  assumes "fresh al" and "d = build al ws"
  shows "\<exists>t lines.
           tree_inv d t \<and>
           to_dot_run d =
             Some (zip (discovery_order t) (map qid [0..<length (discovery_order t)]), lines) \<and>
           lines = numbered_output d (discovery_order t) \<and>
           to_dot d = Some (join [CHR 0x0A] (numbered_output d (discovery_order t))) \<and>
           hd (discovery_order t) = root d \<and> qid 0 = ''Q0'' \<and>
           distinct (discovery_order t) \<and> set (discovery_order t) = set (addrs t) \<and>
           (\<forall>n ids L Q seen ids' L' Q' seen'.
              n \<in> fst ` set ids \<and> set Q \<subseteq> fst ` set ids \<and>
              bfs_round d n (ids, L, Q, seen) = (ids', L', Q', seen') \<longrightarrow>
              fst (get_id ids n) = ids \<and> take (length ids) ids' = ids \<and>
              set Q' \<subseteq> fst ` set ids')"
proof -
  from tree_inv_build [OF assms(1), of ws] assms(2) obtain t where inv: "tree_inv d t" by blast
  then have t: "top t = root d" "distinct (addrs t)" by (simp_all add: tree_inv_def)
  have num: "shape_dot_lines (erase t) = numbered_output d (discovery_order t)"
    using inv by (rule shape_dot_lines_numbered)
  have "to_dot_run d =
      Some (zip (discovery_order t) (map qid [0..<length (discovery_order t)]),
            numbered_output d (discovery_order t))"
    using to_dot_run_tree [OF inv] by (simp add: id_table_of_def num)
  moreover have "to_dot d = Some (join [CHR 0x0A] (numbered_output d (discovery_order t)))"
    using to_dot_tree [OF inv] by (simp add: shape_dot_def num)
  moreover have "hd (discovery_order t) = root d" by (simp add: discovery_order_def t)
  moreover have "qid 0 = ''Q0''" by (simp add: qid_def str_nat.simps digit_char_def)
  moreover note discovery_order_covers [OF t(2)]
  moreover have "\<forall>n ids L Q seen ids' L' Q' seen'.
              n \<in> fst ` set ids \<and> set Q \<subseteq> fst ` set ids \<and>
              bfs_round d n (ids, L, Q, seen) = (ids', L', Q', seen') \<longrightarrow>
              fst (get_id ids n) = ids \<and> take (length ids) ids' = ids \<and>
              set Q' \<subseteq> fst ` set ids'"
    using bfs_round_ids by blast
  ultimately show ?thesis using inv by blast
qed

text \<open>
  C2 on the automaton of the words \<^verbatim>\<open>ab\<close> and \<^verbatim>\<open>c\<close>, with the table and the whole
  output computed: the node of \<^verbatim>\<open>c\<close> is created after the node of \<^verbatim>\<open>b\<close> and discovered
  before it, and is \<^verbatim>\<open>Q2\<close>.
\<close>

theorem C2_ids_in_discovery_order_witness:
  \<open>fresh bump \<and>
   (\<exists>t lines.
      tree_inv (build bump [''ab'', ''c'']) t \<and>
      to_dot_run (build bump [''ab'', ''c'']) =
        Some (zip (discovery_order t) (map qid [0..<length (discovery_order t)]), lines) \<and>
      lines = numbered_output (build bump [''ab'', ''c'']) (discovery_order t) \<and>
      to_dot (build bump [''ab'', ''c'']) =
        Some (join [CHR 0x0A] (numbered_output (build bump [''ab'', ''c'']) (discovery_order t))) \<and>
      hd (discovery_order t) = root (build bump [''ab'', ''c''])) \<and>
   nodes (build bump [''ab'', ''c'']) = [1, 2, 4, 8, 16] \<and>
   map_option fst (to_dot_run (build bump [''ab'', ''c''])) =
     Some [(1, ''Q0''), (4, ''Q1''), (16, ''Q2''), (8, ''Q3'')] \<and>
   to_dot (build bump [''ab'', ''c'']) =
     Some ''digraph DFA {\<newline>  rankdir=LR;\<newline>  graph [bgcolor="#131a2e"];\<newline>  node [shape=circle, style=filled, fillcolor="#103c69", color="#2B65EC", fontcolor="white", fontname="Courier"];  edge [fontcolor="#00f7ff", color="#00f7ff", fontname="Courier"];\<newline>  __start__ [shape=none,label=""];\<newline>  __start__ -> Q0;\<newline>  Q0 -> Q1 [label="a"];\<newline>  Q0 -> Q2 [label="c"];\<newline>  Q1 -> Q3 [label="b"];\<newline>  Q2 [shape=doublecircle, style=filled, fillcolor="#66CC66", color="#339933", fontcolor="white"];\<newline>  Q3 [shape=doublecircle, style=filled, fillcolor="#66CC66", color="#339933", fontcolor="white"];\<newline>}''\<close>
proof -
  have e: "nodes (build bump [''ab'', ''c'']) = [1, 2, 4, 8, 16]"
    "map_option fst (to_dot_run (build bump [''ab'', ''c''])) =
     Some [(1, ''Q0''), (4, ''Q1''), (16, ''Q2''), (8, ''Q3'')]"
    by code_simp+
  have o: \<open>to_dot (build bump [''ab'', ''c'']) =
     Some ''digraph DFA {\<newline>  rankdir=LR;\<newline>  graph [bgcolor="#131a2e"];\<newline>  node [shape=circle, style=filled, fillcolor="#103c69", color="#2B65EC", fontcolor="white", fontname="Courier"];  edge [fontcolor="#00f7ff", color="#00f7ff", fontname="Courier"];\<newline>  __start__ [shape=none,label=""];\<newline>  __start__ -> Q0;\<newline>  Q0 -> Q1 [label="a"];\<newline>  Q0 -> Q2 [label="c"];\<newline>  Q1 -> Q3 [label="b"];\<newline>  Q2 [shape=doublecircle, style=filled, fillcolor="#66CC66", color="#339933", fontcolor="white"];\<newline>  Q3 [shape=doublecircle, style=filled, fillcolor="#66CC66", color="#339933", fontcolor="white"];\<newline>}''\<close>
    by code_simp
  from C2_ids_in_discovery_order [OF bump_fresh refl, of "[''ab'', ''c'']"] bump_fresh e o
  show ?thesis by blast
qed

text \<open>
  Claim C3: when the text has, after a prefix \<open>pre\<close>, a symbol \<open>ch\<close> that is not
  punctuation and for which the node reached by the loop on \<open>pre\<close> has no transition,
  the loop ends in the trap node and \<^verbatim>\<open>accepts\<close> is false, whatever symbols \<open>rest\<close>
  follow.
\<close>

theorem C3_sink_absorbs:
  assumes "ch \<notin> set punctuation"
    and "map_of (children (store d (accepts_loop d (root d) pre))) ch = None"
  shows "accepts_loop d (root d) (pre @ ch # rest) = trap_node d \<and>
         accepts d (pre @ ch # rest) = False"
proof -
  from assms have "accepts_loop d (accepts_loop d (root d) pre) (ch # rest) = trap_node d"
    by simp
  with accepts_loop_append [of d "root d" pre "ch # rest"]
  have "accepts_loop d (root d) (pre @ ch # rest) = trap_node d" by auto
  then show ?thesis by (simp add: accepts_def)
qed

text \<open>C3 at the text \<^verbatim>\<open>caxt\<close> on the automaton of \<^verbatim>\<open>cat\<close>.\<close>

theorem C3_sink_absorbs_witness:
  "CHR ''x'' \<notin> set punctuation \<and>
   map_of (children (store (build bump [''cat'']) (accepts_loop (build bump [''cat''])
      (root (build bump [''cat''])) ''ca''))) (CHR ''x'') = None \<and>
   accepts_loop (build bump [''cat'']) (root (build bump [''cat''])) (''ca'' @ CHR ''x'' # ''t'') =
     trap_node (build bump [''cat'']) \<and>
   accepts (build bump [''cat'']) (''ca'' @ CHR ''x'' # ''t'') = False"
proof -
  have 1: "CHR ''x'' \<notin> set punctuation" by (simp add: punctuation_def)
  have 2: "map_of (children (store (build bump [''cat'']) (accepts_loop (build bump [''cat''])
      (root (build bump [''cat''])) ''ca''))) (CHR ''x'') = None"
    by (simp add: build_def insert_word_def set_final_def DFA_init_def bump_def Node_init_def
        punctuation_def)
  from C3_sink_absorbs [OF 1 2, of "''t''"] 1 2 show ?thesis by simp
qed

text \<open>
  Claim C4: for every automaton built by insertions, every word \<open>w\<close> among the inserted
  ones and every text whose symbols other than punctuation are \<open>w\<close>, in order,
  \<^verbatim>\<open>accepts\<close> of the text is true.
\<close>

theorem C4_punctuation_ignored:
  assumes "fresh al" and "w \<in> set ws"
    and "filter (\<lambda>c. c \<notin> set punctuation) inp = w"
  shows "accepts (build al ws) inp"
proof -
  from assms(3) have "set w \<inter> set punctuation = {}" by auto
  with assms(2) have "shape_accepts (shape_of_words ws) w" by (rule shape_accepts_member)
  with assms(3) have "shape_accepts (shape_of_words ws) inp"
    using shape_accepts_filter [of "shape_of_words ws" inp] by simp
  with assms(1) show ?thesis by (simp add: accepts_build)
qed

text \<open>C4 at the example of the specification: \<^verbatim>\<open>accepts("c,a.t")\<close> after \<^verbatim>\<open>insert("cat")\<close>.\<close>

theorem C4_punctuation_ignored_witness:
  "fresh bump \<and> ''cat'' \<in> set [''cat''] \<and>
   filter (\<lambda>c. c \<notin> set punctuation) ''c,a.t'' = ''cat'' \<and>
   accepts (build bump [''cat'']) ''c,a.t''"
proof -
  have 1: "''cat'' \<in> set [''cat'']" by simp
  have 2: "filter (\<lambda>c. c \<notin> set punctuation) ''c,a.t'' = ''cat''" by (simp add: punctuation_def)
  from C4_punctuation_ignored [OF bump_fresh 1 2] bump_fresh 1 2 show ?thesis by simp
qed

text \<open>
  Claim C5: \<^verbatim>\<open>insert\<close> is idempotent. After \<^verbatim>\<open>insert(w)\<close> on any automaton built by
  insertions, a second \<^verbatim>\<open>insert(w)\<close> leaves the automaton as it is: the same store and
  the same node objects (so the same number of nodes), its loop creates no node and ends
  at a node whose flag is true, and \<^verbatim>\<open>accepts\<close> answers the same on every text.
\<close>

theorem C5_insert_idempotent:
  assumes "fresh al"
    and "d1 = insert_word al w (build al ws)"
    and "d2 = insert_word al w d1"
  shows "d2 = d1 \<and> length (nodes d2) = length (nodes d1) \<and>
         fst (insert_loop al d1 (root d1) w) = d1 \<and>
         is_final (store d2 (snd (insert_loop al d1 (root d1) w))) \<and>
         accepts d2 inp = accepts d1 inp"
proof -
  from tree_inv_build [OF assms(1), of "ws @ [w]"] assms(2) obtain t where
    t: "tree_inv d1 t" "erase t = shape_of_words (ws @ [w])" by (auto simp: build_snoc)
  then have same: "shape_insert w (erase t) = erase t"
    by (simp add: shape_of_words_snoc shape_insert_idem)
  with t(1) have eq: "d2 = d1" unfolding assms(3) by (rule insert_word_present)
  from t(1) have "node_ok (store d1) t" "top t = root d1" by (simp_all add: tree_inv_def)
  with insert_loop_reuse [of d1 t w al] same
  have "fst (insert_loop al d1 (root d1) w) = d1 \<and>
        is_final (store d1 (snd (insert_loop al d1 (root d1) w)))" by simp
  with eq show ?thesis by simp
qed

text \<open>C5 at \<^verbatim>\<open>insert("cat")\<close> twice after \<^verbatim>\<open>insert("car")\<close>.\<close>

theorem C5_insert_idempotent_witness:
  "fresh bump \<and>
   insert_word bump ''cat'' (insert_word bump ''cat'' (build bump [''car''])) =
     insert_word bump ''cat'' (build bump [''car'']) \<and>
   length (nodes (insert_word bump ''cat'' (insert_word bump ''cat'' (build bump [''car''])))) =
     length (nodes (insert_word bump ''cat'' (build bump [''car'']))) \<and>
   accepts (insert_word bump ''cat'' (insert_word bump ''cat'' (build bump [''car'']))) ''cat'' =
     accepts (insert_word bump ''cat'' (build bump [''car''])) ''cat''"
  using C5_insert_idempotent [OF bump_fresh refl refl, of "''cat''" "[''car'']" "''cat''"] bump_fresh
  by simp

text \<open>
  Claim C6: on every automaton built by insertions, \<^verbatim>\<open>accepts\<close> of the empty text and
  of a text of punctuation symbols only is the flag of the root; on a new automaton
  both are false.
\<close>

theorem C6_empty_and_punctuation:
  assumes "fresh al" and "set inp \<subseteq> set punctuation"
  shows "accepts (build al ws) [] = is_final (store (build al ws) (root (build al ws))) \<and>
         accepts (build al ws) inp = is_final (store (build al ws) (root (build al ws))) \<and>
         accepts (DFA_init al) [] = False \<and> accepts (DFA_init al) inp = False"
proof -
  have gen: "accepts d [] = is_final (store d (root d)) \<and>
             accepts d inp = is_final (store d (root d))" if "tree_inv d t" for d t
  proof -
    from that have "root d \<noteq> trap_node d" using top_in_addrs [of t] by (auto simp: tree_inv_def)
    with assms(2) show ?thesis by (simp add: accepts_def accepts_loop_punctuation)
  qed
  from tree_inv_build [OF assms(1), of ws] obtain t where "tree_inv (build al ws) t" by blast
  from gen [OF this] gen [OF tree_inv_init [OF assms(1)]] show ?thesis
    by (simp add: DFA_init_def Let_def Node_init_def)
qed

text \<open>C6 at the text \<^verbatim>\<open>,.!\<close> on the automaton of \<^verbatim>\<open>a\<close> and the empty word.\<close>

theorem C6_empty_and_punctuation_witness:
  "fresh bump \<and> set '',.!'' \<subseteq> set punctuation \<and>
   accepts (build bump [''a'', []]) [] =
     is_final (store (build bump [''a'', []]) (root (build bump [''a'', []]))) \<and>
   accepts (build bump [''a'', []]) '',.!'' =
     is_final (store (build bump [''a'', []]) (root (build bump [''a'', []]))) \<and>
   accepts (DFA_init bump) [] = False \<and> accepts (DFA_init bump) '',.!'' = False"
proof -
  have p: "set '',.!'' \<subseteq> set punctuation" by (simp add: punctuation_def)
  from C6_empty_and_punctuation [OF bump_fresh p] bump_fresh p show ?thesis by simp
qed

text \<open>
  Claim C7: the trap node of every automaton built by insertions is the one made by the
  constructor, it has no children and is not final, a further \<^verbatim>\<open>insert\<close> leaves it as
  it is, it is not the root, no existing node has a transition to it, it cannot be
  reached from the root, and \<^verbatim>\<open>to_dot\<close> gives it no identifier.
\<close>

theorem C7_sink_untouched:
  assumes "fresh al" and "d = build al ws"
  shows "trap_node d = trap_node (DFA_init al) \<and>
         children (store d (trap_node d)) = [] \<and> \<not> is_final (store d (trap_node d)) \<and>
         store (insert_word al w d) (trap_node d) = store d (trap_node d) \<and>
         trap_node d \<noteq> root d \<and>
         (\<forall>a \<in> set (nodes d). trap_node d \<notin> snd ` set (children (store d a))) \<and>
         \<not> reachable d (trap_node d) \<and>
         (\<exists>ids lines. to_dot_run d = Some (ids, lines) \<and> trap_node d \<notin> fst ` set ids)"
proof -
  from tree_inv_build [OF assms(1), of ws] assms(2) obtain t where inv: "tree_inv d t" by blast
  then have t: "top t = root d" "node_ok (store d) t" "distinct (addrs t)"
    "trap_node d \<notin> set (addrs t)" "store d (trap_node d) = Node_init"
    "set (nodes d) = insert (trap_node d) (set (addrs t))"
    by (simp_all add: tree_inv_def)
  have 1: "trap_node d = trap_node (DFA_init al)" by (simp add: assms(2) build_roots)
  have 2: "children (store d (trap_node d)) = []" "\<not> is_final (store d (trap_node d))"
    by (simp_all add: t Node_init_def)
  from tree_inv_insert [OF assms(1) inv, of w] obtain t' where "tree_inv (insert_word al w d) t'"
    by blast
  then have 3: "store (insert_word al w d) (trap_node d) = store d (trap_node d)"
    by (simp add: tree_inv_def insert_word_roots t)
  have 4: "trap_node d \<noteq> root d" using t top_in_addrs [of t] by auto
  have 5: "\<forall>a \<in> set (nodes d). trap_node d \<notin> snd ` set (children (store d a))"
  proof
    fix a assume "a \<in> set (nodes d)"
    then consider "a = trap_node d" | "a \<in> set (addrs t)" using t by auto
    then show "trap_node d \<notin> snd ` set (children (store d a))"
    proof cases
      case 1
      then show ?thesis by (simp add: 2)
    next
      case 2
      show ?thesis
      proof
        assume "trap_node d \<in> snd ` set (children (store d a))"
        then obtain c where "(c, trap_node d) \<in> set (children (store d a))" by auto
        from node_ok_children [OF t(2) 2 this] t(4) show False by simp
      qed
    qed
  qed
  have 6: "\<not> reachable d (trap_node d)" using reachable_in_tree [OF inv] t(4) by blast
  have "to_dot_run d = Some (id_table_of (discovery_order t), shape_dot_lines (erase t))"
    using inv by (rule to_dot_run_tree)
  moreover have "trap_node d \<notin> fst ` set (id_table_of (discovery_order t))"
    using discovery_order_covers [OF t(3)] t(4) by simp
  ultimately have 7: "\<exists>ids lines. to_dot_run d = Some (ids, lines) \<and> trap_node d \<notin> fst ` set ids"
    by blast
  from 1 2 3 4 5 6 7 show ?thesis by blast
qed

text \<open>C7 on the automaton of the words \<^verbatim>\<open>ab\<close> and \<^verbatim>\<open>c\<close>.\<close>

theorem C7_sink_untouched_witness:
  "fresh bump \<and>
   trap_node (build bump [''ab'', ''c'']) = trap_node (DFA_init bump) \<and>
   children (store (build bump [''ab'', ''c'']) (trap_node (build bump [''ab'', ''c'']))) = [] \<and>
   \<not> is_final (store (build bump [''ab'', ''c'']) (trap_node (build bump [''ab'', ''c'']))) \<and>
   \<not> reachable (build bump [''ab'', ''c'']) (trap_node (build bump [''ab'', ''c''])) \<and>
   trap_node (build bump [''ab'', ''c'']) = 2 \<and>
   map_option (map fst \<circ> fst) (to_dot_run (build bump [''ab'', ''c''])) = Some [1, 4, 16, 8]"
proof -
  have e: "trap_node (build bump [''ab'', ''c'']) = 2"
    "map_option (map fst \<circ> fst) (to_dot_run (build bump [''ab'', ''c''])) = Some [1, 4, 16, 8]"
    by code_simp+
  from C7_sink_untouched [OF bump_fresh refl, of "[''ab'', ''c'']"] bump_fresh e
  show ?thesis by blast
qed



text \<open>
  Claim C9: the export is deterministic. Two automata built by the same list of
  insertions, each with any allocator of its own, give the same output, character for
  character; the output is the text read off the shape of the tree, in which no address
  occurs, and \<^verbatim>\<open>to_dot\<close> returns (its loop ends).
\<close>

theorem C9_export_deterministic:
  assumes "fresh al1" and "fresh al2"
  shows "to_dot (build al1 ws) = to_dot (build al2 ws) \<and>
         to_dot (build al1 ws) = Some (shape_dot (shape_of_words ws))"
  using assms by (simp add: to_dot_build)

text \<open>C9 at the words \<^verbatim>\<open>ab\<close>, \<^verbatim>\<open>a\<close> with the allocators \<open>bump\<close> and \<open>stride\<close>.\<close>

theorem C9_export_deterministic_witness:
  "fresh bump \<and> fresh stride \<and>
   to_dot (build bump [''ab'', ''a'']) = to_dot (build stride [''ab'', ''a'']) \<and>
   to_dot (build bump [''ab'', ''a'']) = Some (shape_dot (shape_of_words [''ab'', ''a''])) \<and>
   nodes (build bump [''ab'', ''a'']) = [1, 2, 4, 8] \<and>
   nodes (build stride [''ab'', ''a'']) = [7, 21, 63, 189]"
proof -
  have e: "nodes (build bump [''ab'', ''a'']) = [1, 2, 4, 8]"
    "nodes (build stride [''ab'', ''a'']) = [7, 21, 63, 189]"
    by code_simp+
  from C9_export_deterministic [OF bump_fresh stride_fresh, of "[''ab'', ''a'']"]
    bump_fresh stride_fresh e
  show ?thesis by blast
qed

text \<open>
  Claim C10: a text that an automaton built by insertions accepts is still accepted
  after any further \<^verbatim>\<open>insert\<close>.
\<close>

theorem C10_accepts_monotone:
  assumes "fresh al" and "accepts (build al ws) inp"
  shows "accepts (insert_word al w (build al ws)) inp"
proof -
  have "insert_word al w (build al ws) = build al (ws @ [w])" by (simp add: build_snoc)
  with assms show ?thesis
    by (simp add: accepts_build shape_of_words_snoc shape_accepts_mono)
qed

text \<open>C10 at \<^verbatim>\<open>accepts("cat")\<close> after a further \<^verbatim>\<open>insert("ca")\<close>.\<close>

theorem C10_accepts_monotone_witness:
  "fresh bump \<and> accepts (build bump [''cat'']) ''cat'' \<and>
   accepts (insert_word bump ''ca'' (build bump [''cat''])) ''cat''"
proof -
  have a: "accepts (build bump [''cat'']) ''cat''"
    by (simp add: build_def insert_word_def set_final_def DFA_init_def bump_def Node_init_def
        accepts_def punctuation_def)
  from C10_accepts_monotone [OF bump_fresh a] bump_fresh a show ?thesis by simp
qed

end
